theory Spec2Isabelle
  imports Main "HOL-Library.Word"
begin

unbundle bit_operations_syntax

section \<open>The heap of lib/heap/heap.c\<close>

text \<open>
  The allocator is written for a 32-bit target: \<open>heap_init\<close> casts addresses to
  \<open>unsigned\<close>, so \<open>size_t\<close>, \<open>addr_t\<close>, \<open>unsigned int\<close> and pointers are all 32-bit
  words, whose arithmetic wraps around. A \<open>struct list_node\<close> is two pointers, hence
  \<open>sizeof(struct free_heap_chunk) = 12\<close> and \<open>sizeof(struct alloc_struct_begin) = 12\<close>.
  The model is the release build: \<open>DEBUG_ASSERT\<close> and the code under \<open>#if DEBUG\<close>
  change no state and are left out, and so are the critical sections, which matter
  only to concurrent callers.
\<close>

type_synonym addr = "32 word"
type_synonym size_t = "32 word"

definition sizeof_free_heap_chunk :: size_t where
  "sizeof_free_heap_chunk = 12"

definition sizeof_alloc_struct_begin :: size_t where
  "sizeof_alloc_struct_begin = 12"

definition sizeof_ptr :: size_t where
  "sizeof_ptr = 4"

definition HEAP_MAGIC :: "32 word" where
  "HEAP_MAGIC = 0x48454150"

text \<open>\<open>#define ROUNDUP(a, b) (((a) + ((b)-1)) & ~((b)-1))\<close>\<close>

definition ROUNDUP :: "32 word \<Rightarrow> 32 word \<Rightarrow> 32 word" where
  "ROUNDUP a b = (a + (b - 1)) AND NOT (b - 1)"

text \<open>
  Modelled from the spec: the doubly linked list of \<open>list.h\<close>, which is not among the
  sources. A free chunk is known by its address and its \<open>len\<close> field, and the free
  list is the list of its chunks in link order. \<open>list_for_every_entry\<close> walks it from
  the head, \<open>list_add_before\<close> and \<open>list_add_tail\<close> link a chunk before a node or at
  the end, \<open>list_delete\<close> unlinks one, and \<open>list_next\<close> and \<open>list_prev_type\<close> give
  the neighbours of a node, none at the ends of the list; after a walk that found no
  node, \<open>next_chunk\<close> is none.
\<close>

type_synonym free_heap_chunk = "addr \<times> size_t"

record alloc_struct_begin =
  as_magic :: "32 word"
  as_ptr :: addr
  as_size :: size_t

text \<open>
  \<open>theheap\<close>, together with the allocation headers that \<open>heap_alloc\<close> has stored in
  memory: \<open>mem h a\<close> is the \<open>struct alloc_struct_begin\<close> found at address \<open>a\<close>.
  In the machine the headers of the free chunks and of the allocations are overlaid on
  the bytes of the region. The model keeps the free list and the allocation headers
  apart, which describes the memory as long as every span holds its own header and no
  two spans overlap; that is the invariant \<open>heap_inv\<close> below. The states in which an
  allocation header lies on the node of a free chunk are those of the functions on the
  memory, further below.
\<close>

record heap =
  base :: addr
  len :: size_t
  free_list :: "free_heap_chunk list"
  mem :: "addr \<Rightarrow> alloc_struct_begin"

definition heap_create_free_chunk :: "addr \<Rightarrow> size_t \<Rightarrow> free_heap_chunk" where
  "heap_create_free_chunk p n = (p, n)"

text \<open>
  \<open>heap_insert_free_chunk\<close>. The walk stops at the first \<open>next_chunk\<close> with
  \<open>chunk < next_chunk\<close> (an unsigned comparison of addresses): \<open>pre\<close> are the chunks
  walked over, \<open>post\<close> starts with \<open>next_chunk\<close>, or is empty when the walk ran off
  the end of the list. The chunk is linked between them.
\<close>

text \<open>
  "try to merge with the previous chunk": \<open>last_chunk\<close> is the predecessor of the
  chunk in the list, if there is one; when it ends where the chunk begins it is
  extended, the chunk is unlinked and \<open>last_chunk\<close> takes its place.
\<close>

definition merge_last_chunk ::
  "free_heap_chunk list \<Rightarrow> free_heap_chunk \<Rightarrow> free_heap_chunk list \<times> free_heap_chunk" where
  "merge_last_chunk pre chunk =
    (if pre \<noteq> [] \<and> fst (last pre) + snd (last pre) = fst chunk
     then (butlast pre, (fst (last pre), snd (last pre) + snd chunk))
     else (pre, chunk))"

text \<open>
  "try to merge with the next chunk": when the chunk ends where \<open>next_chunk\<close> begins,
  the chunk is extended and \<open>next_chunk\<close> is unlinked.
\<close>

definition merge_next_chunk ::
  "free_heap_chunk \<Rightarrow> free_heap_chunk list \<Rightarrow> free_heap_chunk \<times> free_heap_chunk list" where
  "merge_next_chunk chunk post =
    (case post of
       [] \<Rightarrow> (chunk, [])
     | next_chunk # rest \<Rightarrow>
         if fst chunk + snd chunk = fst next_chunk
         then ((fst chunk, snd chunk + snd next_chunk), rest)
         else (chunk, post))"

text \<open>The result is the new list and the chunk returned.\<close>

definition heap_insert_free_chunk ::
  "free_heap_chunk list \<Rightarrow> free_heap_chunk \<Rightarrow> free_heap_chunk list \<times> free_heap_chunk" where
  "heap_insert_free_chunk fl chunk =
    (let pre = takeWhile (\<lambda>next_chunk. \<not> fst chunk < fst next_chunk) fl;
         post = dropWhile (\<lambda>next_chunk. \<not> fst chunk < fst next_chunk) fl;
         (pre1, chunk1) = merge_last_chunk pre chunk;
         (chunk2, post2) = merge_next_chunk chunk1 post
     in (pre1 @ chunk2 # post2, chunk2))"

text \<open>The size that \<open>heap_alloc\<close> looks for, and the alignment it uses.\<close>

definition alloc_alignment :: "32 word \<Rightarrow> 32 word" where
  "alloc_alignment alignment =
    (if alignment > 0 then (if alignment < 16 then 16 else alignment) else alignment)"

definition alloc_size :: "size_t \<Rightarrow> 32 word \<Rightarrow> size_t" where
  "alloc_size size0 alignment =
    (let size1 = size0 + sizeof_alloc_struct_begin;
         size2 = (if size1 < sizeof_free_heap_chunk then sizeof_free_heap_chunk else size1);
         size3 = ROUNDUP size2 sizeof_ptr
     in if alignment > 0 then size3 + alloc_alignment alignment else size3)"

text \<open>
  \<open>heap_alloc\<close> returns the new heap and the pointer, \<open>0\<close> for \<open>NULL\<close>. \<open>pre\<close> are
  the chunks too small for the request, \<open>chunk\<close> the first that is big enough.
\<close>

definition heap_alloc :: "heap \<Rightarrow> size_t \<Rightarrow> 32 word \<Rightarrow> heap \<times> addr" where
  "heap_alloc h size0 alignment0 =
    (if alignment0 AND (alignment0 - 1) \<noteq> 0 then (h, 0)
     else
       let size1 = alloc_size size0 alignment0;
           alignment = alloc_alignment alignment0;
           pre = takeWhile (\<lambda>chunk. \<not> snd chunk \<ge> size1) (free_list h);
           found = dropWhile (\<lambda>chunk. \<not> snd chunk \<ge> size1) (free_list h)
       in case found of
            [] \<Rightarrow> (h, 0)
          | chunk # next_nodes \<Rightarrow>
              let (fl, chunk_len) =
                    (if snd chunk > size1 + sizeof_free_heap_chunk
                     then (pre @ heap_create_free_chunk (fst chunk + size1) (snd chunk - size1)
                                 # next_nodes,
                           snd chunk - (snd chunk - size1))
                     else (pre @ next_nodes, snd chunk));
                  size2 = chunk_len;
                  ptr1 = fst chunk + sizeof_alloc_struct_begin;
                  ptr2 = (if alignment > 0 then ROUNDUP ptr1 alignment else ptr1);
                  as = ptr2 - sizeof_alloc_struct_begin
              in (h\<lparr>free_list := fl,
                     mem := (mem h)(as := \<lparr>as_magic = HEAP_MAGIC, as_ptr = fst chunk,
                                          as_size = size2\<rparr>)\<rparr>,
                  ptr2))"

definition heap_free :: "heap \<Rightarrow> addr \<Rightarrow> heap" where
  "heap_free h p =
    (if p = 0 then h
     else
       let as = mem h (p - sizeof_alloc_struct_begin)
       in h\<lparr>free_list :=
              fst (heap_insert_free_chunk (free_list h)
                     (heap_create_free_chunk (as_ptr as) (as_size as)))\<rparr>)"

text \<open>
  \<open>heap_init\<close>, given the addresses \<open>&_end\<close> and \<open>&_end_of_ram\<close> and the memory as it
  is found.
\<close>

definition heap_init :: "addr \<Rightarrow> addr \<Rightarrow> (addr \<Rightarrow> alloc_struct_begin) \<Rightarrow> heap" where
  "heap_init end_addr end_of_ram m =
    (let b = end_addr; n = end_of_ram - end_addr
     in \<lparr>base = b, len = n,
         free_list = fst (heap_insert_free_chunk [] (heap_create_free_chunk b n)),
         mem = m\<rparr>)"


section \<open>Sequences of operations\<close>

text \<open>
  A client calls \<open>heap_alloc\<close>, and \<open>heap_free\<close> on \<open>NULL\<close> or on a pointer that
  \<open>heap_alloc\<close> returned and that was not freed since. The state of a run is the heap
  together with the pointers of the live allocations, one entry for each allocation.
\<close>

datatype heap_op = Alloc size_t "32 word" | Free addr

fun heap_step :: "heap \<times> addr list \<Rightarrow> heap_op \<Rightarrow> (heap \<times> addr list) option" where
  "heap_step (h, live) (Alloc n a) =
     (let (h', p) = heap_alloc h n a in Some (h', if p = 0 then live else p # live))"
| "heap_step (h, live) (Free p) =
     (if p = 0 then Some (h, live)
      else if p \<in> set live then Some (heap_free h p, remove1 p live)
      else None)"

fun heap_run :: "heap \<times> addr list \<Rightarrow> heap_op list \<Rightarrow> (heap \<times> addr list) option" where
  "heap_run s [] = Some s"
| "heap_run s (x # xs) = (case heap_step s x of None \<Rightarrow> None | Some s' \<Rightarrow> heap_run s' xs)"

text \<open>The memory before any header is stored.\<close>

definition no_headers :: "addr \<Rightarrow> alloc_struct_begin" where
  "no_headers = (\<lambda>_. \<lparr>as_magic = 0, as_ptr = 0, as_size = 0\<rparr>)"

section \<open>The properties of the free list\<close>

text \<open>
  Strictly ascending addresses, and no chunk touching the next one: the end of each
  chunk, computed without wrap-around, is below the address of its successor.
\<close>

fun ascending_nonadjacent :: "free_heap_chunk list \<Rightarrow> bool" where
  "ascending_nonadjacent [] = True"
| "ascending_nonadjacent [c] = True"
| "ascending_nonadjacent (c # d # cs) =
     (fst c < fst d \<and> unat (fst c) + unat (snd c) < unat (fst d) \<and> ascending_nonadjacent (d # cs))"

text \<open>The sum of the \<open>len\<close> fields of the free chunks.\<close>

definition free_bytes :: "heap \<Rightarrow> nat" where
  "free_bytes h = sum_list (map (\<lambda>c. unat (snd c)) (free_list h))"

text \<open>The span of a live allocation is read from the header in front of its pointer.\<close>

definition span_base :: "heap \<Rightarrow> addr \<Rightarrow> addr" where
  "span_base h p = as_ptr (mem h (p - sizeof_alloc_struct_begin))"

definition span_size :: "heap \<Rightarrow> addr \<Rightarrow> size_t" where
  "span_size h p = as_size (mem h (p - sizeof_alloc_struct_begin))"

definition live_bytes :: "heap \<Rightarrow> addr list \<Rightarrow> nat" where
  "live_bytes h live = sum_list (map (\<lambda>p. unat (span_size h p)) live)"

text \<open>
  Every free chunk lies in the region \<open>[base, base + len)\<close>, and the region does not
  wrap around the end of the address space.
\<close>

definition chunks_in_region :: "heap \<Rightarrow> bool" where
  "chunks_in_region h \<longleftrightarrow>
     unat (base h) + unat (len h) < 2 ^ 32 \<and>
     (\<forall>c \<in> set (free_list h).
        unat (base h) \<le> unat (fst c) \<and>
        unat (fst c) + unat (snd c) \<le> unat (base h) + unat (len h))"

text \<open>
  The normalisation of a request as the specification words it, on the nonnegative
  integers: add the size of the allocation header, raise to the size of a free chunk
  header, round up to a multiple of the pointer size, and for a nonzero alignment add
  the alignment raised to at least 16.
\<close>

definition normalized_size_spec :: "nat \<Rightarrow> nat \<Rightarrow> nat" where
  "normalized_size_spec n a =
    (let s1 = n + unat sizeof_alloc_struct_begin;
         s2 = max s1 (unat sizeof_free_heap_chunk);
         s3 = ((s2 + (unat sizeof_ptr - 1)) div unat sizeof_ptr) * unat sizeof_ptr
     in if a \<noteq> 0 then s3 + max a 16 else s3)"

text \<open>
  A request is in range when none of the additions that \<open>heap_alloc\<close> makes on the
  size wraps around \<open>2 ^ 32\<close>: the header, the rounding, the alignment, and the
  \<open>size + sizeof(struct free_heap_chunk)\<close> of the split test.
\<close>

definition request_in_range :: "size_t \<Rightarrow> 32 word \<Rightarrow> bool" where
  "request_in_range n a \<longleftrightarrow>
     unat n + unat sizeof_alloc_struct_begin + (unat sizeof_ptr - 1) + unat (alloc_alignment a)
       + unat sizeof_free_heap_chunk < 2 ^ 32"

text \<open>The bytes of a span, given by its address and its length.\<close>

definition bytes_of :: "addr \<times> size_t \<Rightarrow> nat set" where
  "bytes_of c = {unat (fst c) ..< unat (fst c) + unat (snd c)}"

definition span :: "heap \<Rightarrow> addr \<Rightarrow> addr \<times> size_t" where
  "span h p = (span_base h p, span_size h p)"

text \<open>
  The invariant of a run. The free chunks lie in the region, ascend without touching
  and have room for their header; the live pointers are distinct, each lies behind its
  header inside its recorded span, which lies in the region; free chunks and live spans
  are pairwise disjoint; and their lengths add up to the length of the region.
\<close>

definition heap_inv :: "heap \<Rightarrow> addr list \<Rightarrow> bool" where
  "heap_inv h live \<longleftrightarrow>
     chunks_in_region h \<and>
     ascending_nonadjacent (free_list h) \<and>
     (\<forall>c \<in> set (free_list h). unat sizeof_free_heap_chunk \<le> unat (snd c)) \<and>
     distinct live \<and>
     (\<forall>p \<in> set live.
        unat (base h) \<le> unat (span_base h p) \<and>
        unat (span_base h p) + unat (span_size h p) \<le> unat (base h) + unat (len h) \<and>
        unat (span_base h p) + unat sizeof_alloc_struct_begin \<le> unat p \<and>
        unat p \<le> unat (span_base h p) + unat (span_size h p)) \<and>
     (\<forall>p \<in> set live. \<forall>c \<in> set (free_list h). bytes_of (span h p) \<inter> bytes_of c = {}) \<and>
     (\<forall>p \<in> set live. \<forall>q \<in> set live.
        p \<noteq> q \<longrightarrow> bytes_of (span h p) \<inter> bytes_of (span h q) = {}) \<and>
     free_bytes h + live_bytes h live = unat (len h)"

text \<open>The calls of a run whose requests are all in range.\<close>

fun op_in_range :: "heap_op \<Rightarrow> bool" where
  "op_in_range (Alloc n a) = request_in_range n a"
| "op_in_range (Free p) = True"

text \<open>The end of a chunk, the summed lengths of a list of chunks and its bytes.\<close>

definition chunk_end :: "free_heap_chunk \<Rightarrow> nat" where
  "chunk_end c = unat (fst c) + unat (snd c)"

definition len_sum :: "free_heap_chunk list \<Rightarrow> nat" where
  "len_sum cs = sum_list (map (\<lambda>c. unat (snd c)) cs)"

definition bytes_of_list :: "free_heap_chunk list \<Rightarrow> nat set" where
  "bytes_of_list cs = (\<Union>c \<in> set cs. bytes_of c)"

text \<open>The pointer that \<open>heap_alloc\<close> derives from the address of the chunk it took.\<close>

definition user_ptr :: "addr \<Rightarrow> 32 word \<Rightarrow> addr" where
  "user_ptr chunk a =
    (if alloc_alignment a > 0
     then ROUNDUP (chunk + sizeof_alloc_struct_begin) (alloc_alignment a)
     else chunk + sizeof_alloc_struct_begin)"

section \<open>The memory of the allocator\<close>

text \<open>
  The same functions on the memory itself, for the states in which headers overlap.
  \<open>m a\<close> is the 32-bit word stored at the address \<open>a\<close>; \<open>&_end\<close> is the address of an
  \<open>int\<close>, and the region, the lengths and the addresses of all fields are multiples of
  4. The fields lie as the structures of heap.c give them: \<open>node\<close> at 0 and \<open>len\<close> at 8
  in a \<open>struct free_heap_chunk\<close>; \<open>magic\<close> at 0, \<open>ptr\<close> at 4 and \<open>size\<close> at 8 in a
  \<open>struct alloc_struct_begin\<close>; \<open>base\<close> at 0, \<open>len\<close> at 4 and \<open>free_list\<close> at 8 in
  \<open>theheap\<close>, whose address is a parameter. A loop takes fuel, and a result \<open>None\<close>
  says that the fuel did not suffice.
\<close>

type_synonym ram = "addr \<Rightarrow> 32 word"

text \<open>
  Modelled from the spec: the primitives of \<open>list.h\<close>, which is not among the sources,
  for the list linkage (prev/next) at the start of a free chunk: a circular doubly
  linked list with the head node \<open>theheap.free_list\<close>, \<open>prev\<close> at 0 and \<open>next\<close> at 4 in
  a \<open>struct list_node\<close>. Each store is made in the memory left by the store before it.
\<close>

definition list_initialize :: "addr \<Rightarrow> ram \<Rightarrow> ram" where
  "list_initialize list m = (m(list + 4 := list))(list := list)"

definition list_add_tail :: "addr \<Rightarrow> addr \<Rightarrow> ram \<Rightarrow> ram" where
  "list_add_tail list item m =
    (let m1 = m(item := m list);
         m2 = m1(item + 4 := list);
         m3 = m2(m2 list + 4 := item)
     in m3(list := item))"

definition list_add_before :: "addr \<Rightarrow> addr \<Rightarrow> ram \<Rightarrow> ram" where
  "list_add_before entry new_entry m = list_add_tail entry new_entry m"

definition list_delete :: "addr \<Rightarrow> ram \<Rightarrow> ram" where
  "list_delete item m =
    (let m1 = m(m (item + 4) := m item);
         m2 = m1(m1 item + 4 := m1 (item + 4))
     in (m2(item := 0))(item + 4 := 0))"

definition list_prev :: "addr \<Rightarrow> addr \<Rightarrow> ram \<Rightarrow> addr" where
  "list_prev list item m = (if m item \<noteq> list then m item else 0)"

definition list_next :: "addr \<Rightarrow> addr \<Rightarrow> ram \<Rightarrow> addr" where
  "list_next list item m = (if m (item + 4) \<noteq> list then m (item + 4) else 0)"

text \<open>\<open>&theheap.free_list\<close>\<close>

definition free_list_of :: "addr \<Rightarrow> addr" where
  "free_list_of theheap = theheap + 8"

definition heap_create_free_chunk_ram :: "addr \<Rightarrow> size_t \<Rightarrow> ram \<Rightarrow> ram \<times> addr" where
  "heap_create_free_chunk_ram p n m = (m(p + 8 := n), p)"

text \<open>
  The walk of \<open>heap_insert_free_chunk\<close> with \<open>list_for_every_entry\<close>: it ends at the
  head of the list or at the first \<open>next_chunk\<close> with \<open>chunk < next_chunk\<close>.
\<close>

fun insert_walk :: "nat \<Rightarrow> addr \<Rightarrow> addr \<Rightarrow> ram \<Rightarrow> addr \<Rightarrow> addr option" where
  "insert_walk 0 list chunk m next_chunk = None"
| "insert_walk (Suc fuel) list chunk m next_chunk =
    (if next_chunk = list then Some next_chunk
     else if chunk < next_chunk then Some next_chunk
     else insert_walk fuel list chunk m (m (next_chunk + 4)))"

text \<open>
  After a walk that found no node the chunk is linked at the tail and \<open>next_chunk\<close> is
  none, written 0.
\<close>

definition heap_insert_free_chunk_ram ::
  "nat \<Rightarrow> addr \<Rightarrow> addr \<Rightarrow> ram \<Rightarrow> (ram \<times> addr) option" where
  "heap_insert_free_chunk_ram fuel theheap chunk m =
    (let list = free_list_of theheap in
     case insert_walk fuel list chunk m (m (list + 4)) of
       None \<Rightarrow> None
     | Some n \<Rightarrow>
         let (m1, next_chunk) =
               (if n \<noteq> list then (list_add_before n chunk m, n)
                else (list_add_tail list chunk m, 0));
             last_chunk = list_prev list chunk m1;
             (m2, chunk2) =
               (if last_chunk \<noteq> 0 \<and> last_chunk + m1 (last_chunk + 8) = chunk
                then (list_delete chunk
                        (m1(last_chunk + 8 := m1 (last_chunk + 8) + m1 (chunk + 8))),
                      last_chunk)
                else (m1, chunk));
             m3 =
               (if next_chunk \<noteq> 0 \<and> chunk2 + m2 (chunk2 + 8) = next_chunk
                then list_delete next_chunk
                       (m2(chunk2 + 8 := m2 (chunk2 + 8) + m2 (next_chunk + 8)))
                else m2)
         in Some (m3, chunk2))"

text \<open>
  The walk of \<open>heap_alloc\<close>: it ends at the head of the list or at the first chunk
  whose \<open>len\<close> is at least the size.
\<close>

fun alloc_walk :: "nat \<Rightarrow> addr \<Rightarrow> size_t \<Rightarrow> ram \<Rightarrow> addr \<Rightarrow> addr option" where
  "alloc_walk 0 list size1 m chunk = None"
| "alloc_walk (Suc fuel) list size1 m chunk =
    (if chunk = list then Some chunk
     else if m (chunk + 8) \<ge> size1 then Some chunk
     else alloc_walk fuel list size1 m (m (chunk + 4)))"

definition heap_alloc_ram ::
  "nat \<Rightarrow> addr \<Rightarrow> size_t \<Rightarrow> 32 word \<Rightarrow> ram \<Rightarrow> (ram \<times> addr) option" where
  "heap_alloc_ram fuel theheap size0 alignment0 m =
    (if alignment0 AND (alignment0 - 1) \<noteq> 0 then Some (m, 0)
     else
       let size1 = alloc_size size0 alignment0;
           alignment = alloc_alignment alignment0;
           list = free_list_of theheap
       in case alloc_walk fuel list size1 m (m (list + 4)) of
            None \<Rightarrow> None
          | Some chunk \<Rightarrow>
              if chunk = list then Some (m, 0)
              else
                let next_node = list_next list chunk m;
                    m1 = list_delete chunk m;
                    m2 =
                      (if m1 (chunk + 8) > size1 + sizeof_free_heap_chunk
                       then
                         let (m3, newchunk) =
                               heap_create_free_chunk_ram (chunk + size1) (m1 (chunk + 8) - size1) m1;
                             m4 = m3(chunk + 8 := m3 (chunk + 8) - (m3 (chunk + 8) - size1))
                         in if next_node \<noteq> 0 then list_add_before next_node newchunk m4
                            else list_add_tail list newchunk m4
                       else m1);
                    size2 = m2 (chunk + 8);
                    ptr1 = chunk + sizeof_alloc_struct_begin;
                    ptr2 = (if alignment > 0 then ROUNDUP ptr1 alignment else ptr1);
                    as = ptr2 - sizeof_alloc_struct_begin
                in Some (((m2(as := HEAP_MAGIC))(as + 4 := chunk))(as + 8 := size2), ptr2))"

definition heap_free_ram :: "nat \<Rightarrow> addr \<Rightarrow> addr \<Rightarrow> ram \<Rightarrow> ram option" where
  "heap_free_ram fuel theheap p m =
    (if p = 0 then Some m
     else
       let as = p - sizeof_alloc_struct_begin;
           (m1, chunk) = heap_create_free_chunk_ram (m (as + 4)) (m (as + 8)) m
       in map_option fst (heap_insert_free_chunk_ram fuel theheap chunk m1))"

definition heap_init_ram :: "nat \<Rightarrow> addr \<Rightarrow> addr \<Rightarrow> addr \<Rightarrow> ram \<Rightarrow> ram option" where
  "heap_init_ram fuel theheap end_addr end_of_ram m =
    (let m1 = (m(theheap := end_addr))(theheap + 4 := end_of_ram - end_addr);
         m2 = list_initialize (free_list_of theheap) m1;
         (m3, chunk) = heap_create_free_chunk_ram (m2 theheap) (m2 (theheap + 4)) m2
     in map_option fst (heap_insert_free_chunk_ram fuel theheap chunk m3))"

text \<open>The free list read from the memory: the chunks from \<open>chunk\<close> to the head.\<close>

fun ram_free_list :: "nat \<Rightarrow> addr \<Rightarrow> ram \<Rightarrow> addr \<Rightarrow> free_heap_chunk list option" where
  "ram_free_list 0 list m chunk = None"
| "ram_free_list (Suc fuel) list m chunk =
    (if chunk = list then Some []
     else map_option ((#) (chunk, m (chunk + 8))) (ram_free_list fuel list m (m (chunk + 4))))"

text \<open>The memory before \<open>heap_init\<close>.\<close>

definition blank_ram :: ram where
  "blank_ram = (\<lambda>_. 0)"

section \<open>Evaluation on concrete heaps\<close>

lemmas heap_eval = heap_init_def heap_insert_free_chunk_def merge_last_chunk_def
  merge_next_chunk_def heap_create_free_chunk_def
  heap_alloc_def heap_free_def alloc_size_def alloc_alignment_def ROUNDUP_def
  sizeof_free_heap_chunk_def sizeof_alloc_struct_begin_def sizeof_ptr_def Let_def
  span_base_def span_size_def

lemmas ram_eval = heap_init_ram_def heap_alloc_ram_def heap_free_ram_def
  heap_insert_free_chunk_ram_def heap_create_free_chunk_ram_def free_list_of_def
  list_initialize_def list_add_tail_def list_add_before_def list_delete_def list_prev_def
  list_next_def alloc_alignment_def ROUNDUP_def blank_ram_def
  sizeof_free_heap_chunk_def sizeof_alloc_struct_begin_def sizeof_ptr_def HEAP_MAGIC_def Let_def

section \<open>Rounding and alignment\<close>

lemma and_not_mask_udvd: "(2 :: 32 word) ^ k udvd (x AND NOT (mask k))"
proof -
  have "take_bit k (x AND NOT (mask k)) = 0"
    by (rule bit_eqI) (auto simp add: bit_simps)
  then have "(2 :: 32 word) ^ k dvd (x AND NOT (mask k))"
    by (rule take_bit_eq_0_iff [THEN iffD1])
  then show ?thesis
    by (simp add: exp_dvd_iff_exp_udvd)
qed

lemma ROUNDUP_16: "unat (ROUNDUP x 16) mod 16 = 0"
  using and_not_mask_udvd [of 4 "x + 15"]
  by (simp add: ROUNDUP_def mask_eq_exp_minus_1 mod_eq_0_iff_dvd udvd_iff_dvd)

lemma ROUNDUP_32: "unat (ROUNDUP x 32) mod 32 = 0"
  using and_not_mask_udvd [of 5 "x + 31"]
  by (simp add: ROUNDUP_def mask_eq_exp_minus_1 mod_eq_0_iff_dvd udvd_iff_dvd)

lemma ROUNDUP_64: "unat (ROUNDUP x 64) mod 64 = 0"
  using and_not_mask_udvd [of 6 "x + 63"]
  by (simp add: ROUNDUP_def mask_eq_exp_minus_1 mod_eq_0_iff_dvd udvd_iff_dvd)

lemma ROUNDUP_128: "unat (ROUNDUP x 128) mod 128 = 0"
  using and_not_mask_udvd [of 7 "x + 127"]
  by (simp add: ROUNDUP_def mask_eq_exp_minus_1 mod_eq_0_iff_dvd udvd_iff_dvd)

text \<open>The pointer \<open>heap_alloc\<close> returns, when it is not \<open>NULL\<close>.\<close>

lemma heap_alloc_ptr:
  "snd (heap_alloc h n a) = 0 \<or>
   snd (heap_alloc h n a) =
     (if alloc_alignment a > 0
      then ROUNDUP (fst (hd (dropWhile (\<lambda>chunk. \<not> snd chunk \<ge> alloc_size n a) (free_list h)))
                      + sizeof_alloc_struct_begin) (alloc_alignment a)
      else fst (hd (dropWhile (\<lambda>chunk. \<not> snd chunk \<ge> alloc_size n a) (free_list h)))
             + sizeof_alloc_struct_begin)"
  by (simp add: heap_alloc_def Let_def split: list.split prod.split)

text \<open>
  C4. For every size \<open>n\<close> and every alignment \<open>a\<close> among 1, 2, 4, 8, 16, 32, 64, 128,
  \<open>heap_alloc(n, a)\<close> returns \<open>NULL\<close> or a pointer whose address is a multiple of
  \<open>max(a, 16)\<close>.
\<close>

theorem heap_alloc_aligned:
  assumes "a \<in> {1, 2, 4, 8, 16, 32, 64, 128}"
  shows "snd (heap_alloc h n a) = 0 \<or> unat (snd (heap_alloc h n a)) mod max (unat a) 16 = 0"
proof -
  from assms have al: "alloc_alignment a \<in> {16, 32, 64, 128}"
    and m: "max (unat a) 16 = unat (alloc_alignment a)"
    by (auto simp add: alloc_alignment_def)
  from al have pos: "alloc_alignment a > 0" by auto
  show ?thesis
    using heap_alloc_ptr [of h n a] al pos unfolding m
    by (auto simp add: ROUNDUP_16 ROUNDUP_32 ROUNDUP_64 ROUNDUP_128)
qed

theorem heap_alloc_aligned_witness:
  "(128 :: 32 word) \<in> {1, 2, 4, 8, 16, 32, 64, 128} \<and>
   snd (heap_alloc (heap_init 0x90000000 0x90001000 no_headers) 1 128) = 0x90000080 \<and>
   unat (snd (heap_alloc (heap_init 0x90000000 0x90001000 no_headers) 1 128)) mod max (unat (128 :: 32 word)) 16 = 0"
proof -
  have p: "snd (heap_alloc (heap_init 0x90000000 0x90001000 no_headers) 1 128) = 0x90000080"
    by (simp add: heap_eval)
  have a: "(128 :: 32 word) \<in> {1, 2, 4, 8, 16, 32, 64, 128}" by simp
  from heap_alloc_aligned [OF a, of "heap_init 0x90000000 0x90001000 no_headers" 1] p a
  show ?thesis by simp
qed

section \<open>The chunk that heap_alloc takes\<close>

lemma and_not_mask_push_drop: "(w :: 32 word) AND NOT (mask k) = push_bit k (drop_bit k w)"
  by (rule bit_eqI) (auto simp add: bit_simps)

lemma unat_and_not_3: "unat ((w :: 32 word) AND NOT 3) = unat w div 4 * 4"
proof -
  have "unat (w AND NOT 3) = unat (push_bit 2 (drop_bit 2 w))"
    using and_not_mask_push_drop [of w 2] by (simp add: mask_eq_exp_minus_1)
  also have "\<dots> = take_bit 32 (push_bit 2 (unat w div 4))"
    by (simp add: unsigned_push_bit_eq unat_drop_bit_eq drop_bit_eq_div unat_div)
  also have "\<dots> = unat w div 4 * 4"
  proof -
    have "unat w < 2 ^ 32" using unsigned_less [of w] by simp
    then have "unat w div 4 * 4 < 2 ^ 32" by simp
    then show ?thesis by (simp add: push_bit_eq_mult take_bit_nat_eq_self)
  qed
  finally show ?thesis .
qed

lemma mod_div_4: "(m :: nat) mod 4294967296 div 4 * 4 = (m div 4 * 4) mod 4294967296"
proof -
  have "m mod (4 * 1073741824) = 4 * (m div 4 mod 1073741824) + m mod 4"
    by (rule mod_mult2_eq)
  then have l: "m mod 4294967296 div 4 = m div 4 mod 1073741824"
    by simp
  have "(m div 4 * 4) mod (4 * 1073741824) = 4 * ((m div 4) mod 1073741824)"
    by (simp only: mult.commute [of _ 4] mult_mod_right)
  then show ?thesis using l by simp
qed

lemma unat_ROUNDUP_ptr: "unat (ROUNDUP s 4) = ((unat s + 3) div 4 * 4) mod 2 ^ 32"
proof -
  have "ROUNDUP s 4 = (s + 3) AND NOT 3"
    by (simp add: ROUNDUP_def)
  then have "unat (ROUNDUP s 4) = unat (s + 3) div 4 * 4"
    by (simp only: unat_and_not_3)
  then show ?thesis
    by (simp add: unat_word_ariths mod_div_4)
qed

lemma find_dropWhile_not:
  "find P xs = (case dropWhile (\<lambda>x. \<not> P x) xs of [] \<Rightarrow> None | x # _ \<Rightarrow> Some x)"
  by (induction xs) auto

lemma heap_alloc_bad_alignment:
  "a AND (a - 1) \<noteq> 0 \<Longrightarrow> heap_alloc h n a = (h, 0)"
  by (simp add: heap_alloc_def)

lemma heap_alloc_no_fit:
  assumes "a AND (a - 1) = 0"
    and "dropWhile (\<lambda>chunk. \<not> alloc_size n a \<le> snd chunk) (free_list h) = []"
  shows "heap_alloc h n a = (h, 0)"
  using assms by (simp add: heap_alloc_def Let_def del: dropWhile_eq_Nil_conv)

lemma heap_alloc_fit:
  assumes "a AND (a - 1) = 0"
    and "dropWhile (\<lambda>chunk. \<not> alloc_size n a \<le> snd chunk) (free_list h) = K # post"
  shows "heap_alloc h n a =
    (h\<lparr>free_list :=
         (if snd K > alloc_size n a + sizeof_free_heap_chunk
          then takeWhile (\<lambda>chunk. \<not> alloc_size n a \<le> snd chunk) (free_list h)
                 @ (fst K + alloc_size n a, snd K - alloc_size n a) # post
          else takeWhile (\<lambda>chunk. \<not> alloc_size n a \<le> snd chunk) (free_list h) @ post),
        mem := (mem h)
          (user_ptr (fst K) a - sizeof_alloc_struct_begin :=
             \<lparr>as_magic = HEAP_MAGIC, as_ptr = fst K,
              as_size = (if snd K > alloc_size n a + sizeof_free_heap_chunk
                         then alloc_size n a else snd K)\<rparr>)\<rparr>,
     user_ptr (fst K) a)"
  using assms
  by (simp add: heap_alloc_def Let_def user_ptr_def heap_create_free_chunk_def)

text \<open>
  C9. In an initialised heap, whose free chunks lie in the region, with a free chunk
  that is large enough for the request, \<open>heap_alloc(0, 0)\<close> does not return \<open>NULL\<close>:
  a request of size zero is not declined.
\<close>

theorem heap_alloc_zero_size:
  assumes "chunks_in_region h"
    and "\<exists>c \<in> set (free_list h). alloc_size 0 0 \<le> snd c"
  shows "snd (heap_alloc h 0 0) \<noteq> 0"
proof -
  have sz: "alloc_size 0 0 = 12"
    by (simp add: alloc_size_def ROUNDUP_def sizeof_alloc_struct_begin_def
        sizeof_free_heap_chunk_def sizeof_ptr_def)
  from assms(2)
  obtain K post where d: "dropWhile (\<lambda>chunk. \<not> alloc_size 0 0 \<le> snd chunk) (free_list h) = K # post"
    by (cases "dropWhile (\<lambda>chunk. \<not> alloc_size 0 0 \<le> snd chunk) (free_list h)") auto
  then have K: "K \<in> set (free_list h)"
    using set_dropWhileD [of K "\<lambda>chunk. \<not> alloc_size 0 0 \<le> snd chunk" "free_list h"] by simp
  from d have big: "alloc_size 0 0 \<le> snd K"
    using hd_dropWhile [of "\<lambda>chunk. \<not> alloc_size 0 0 \<le> snd chunk" "free_list h"] by simp
  from K assms(1) have "unat (fst K) + unat (snd K) < 2 ^ 32"
    by (auto simp add: chunks_in_region_def)
  moreover from big have "12 \<le> unat (snd K)"
    by (simp add: sz word_le_nat_alt)
  ultimately have "unat (fst K) + 12 < 2 ^ 32" by simp
  then have "unat (fst K + 12) = unat (fst K) + unat (12 :: 32 word)"
    by (intro unat_add_lem [THEN iffD1]) simp
  then have "fst K + 12 \<noteq> 0"
    by (auto simp add: unat_eq_zero [symmetric] simp del: unat_eq_zero)
  moreover have "heap_alloc h 0 0 = (fst (heap_alloc h 0 0), fst K + 12)"
    using heap_alloc_fit [of 0 0 h K post] d
    by (simp add: user_ptr_def alloc_alignment_def sizeof_alloc_struct_begin_def)
  ultimately show ?thesis by (metis snd_conv)
qed

theorem heap_alloc_zero_size_witness:
  "chunks_in_region (heap_init 0x90000000 0x90001000 no_headers) \<and>
   (\<exists>c \<in> set (free_list (heap_init 0x90000000 0x90001000 no_headers)).
      alloc_size 0 0 \<le> snd c) \<and>
   snd (heap_alloc (heap_init 0x90000000 0x90001000 no_headers) 0 0) \<noteq> 0"
proof -
  have r: "chunks_in_region (heap_init 0x90000000 0x90001000 no_headers)"
    by (simp add: chunks_in_region_def heap_eval)
  have c: "\<exists>c \<in> set (free_list (heap_init 0x90000000 0x90001000 no_headers)).
      alloc_size 0 0 \<le> snd c"
    by (simp add: heap_eval)
  from heap_alloc_zero_size [OF r c] r c show ?thesis by simp
qed

section \<open>Requests in range\<close>

lemma and_not_minus: "(y :: 32 word) AND NOT m = y - (y AND m)"
  by (simp add: bit.conj_disj_distrib disjunctive_diff_eq_and_not
    word_bw_comms(1) word_bw_lcs(1))

lemma unat_and_not_lower: "unat (y :: 32 word) - unat m \<le> unat (y AND NOT m)"
proof -
  have le: "y AND m \<le> y" by (rule word_and_le2)
  have "unat (y AND NOT m) = unat y - unat (y AND m)"
    using le by (simp add: and_not_minus unat_sub)
  moreover have "unat (y AND m) \<le> unat m"
    using word_and_le1 [of y m] by (simp add: word_le_nat_alt)
  ultimately show ?thesis by simp
qed

lemma ROUNDUP_bounds:
  assumes "0 < unat b" and "unat x + (unat b - 1) < 2 ^ 32"
  shows "unat x \<le> unat (ROUNDUP x b) \<and> unat (ROUNDUP x b) \<le> unat x + (unat b - 1)"
proof -
  from assms(1) have b1: "unat (b - 1) = unat b - 1"
    by (metis less_not_refl unat_minus_one unsigned_0)
  with assms(2) have y: "unat (x + (b - 1)) = unat x + (unat b - 1)"
    by (simp add: unat_add_lem [THEN iffD1])
  have "unat (ROUNDUP x b) \<le> unat (x + (b - 1))"
    unfolding ROUNDUP_def using word_and_le2 [of "x + (b - 1)" "NOT (b - 1)"]
    by (simp add: word_le_nat_alt)
  moreover have "unat (x + (b - 1)) - unat (b - 1) \<le> unat (ROUNDUP x b)"
    unfolding ROUNDUP_def by (rule unat_and_not_lower)
  ultimately show ?thesis using y b1 by simp
qed

lemma alloc_alignment_zero: "alloc_alignment a = 0 \<longleftrightarrow> a = 0"
  by (auto simp add: alloc_alignment_def word_gt_0)

lemma alloc_size_plus: "alloc_size n a = ROUNDUP (max (n + 12) 12) 4 + alloc_alignment a"
  by (auto simp add: alloc_size_def Let_def max_def alloc_alignment_zero word_gt_0
      sizeof_alloc_struct_begin_def sizeof_free_heap_chunk_def sizeof_ptr_def)

lemma unat_alloc_size:
  assumes "request_in_range n a"
  shows "unat (alloc_size n a) = (unat n + 15) div 4 * 4 + unat (alloc_alignment a)"
proof -
  from assms have r: "unat n + 12 + 3 + unat (alloc_alignment a) + 12 < 2 ^ 32"
    by (simp add: request_in_range_def sizeof_alloc_struct_begin_def
        sizeof_free_heap_chunk_def sizeof_ptr_def)
  then have n12: "unat (n + 12) = unat n + 12"
    by (simp add: unat_add_lem [THEN iffD1])
  then have "12 \<le> n + 12"
    by (simp add: word_le_nat_alt)
  then have m: "max (n + 12) 12 = n + 12"
    by (rule max_absorb1)
  have le: "(unat n + 12 + 3) div 4 * 4 \<le> unat n + 12 + 3"
    by (rule div_times_less_eq_dividend)
  with r have lt: "(unat n + 12 + 3) div 4 * 4 < 2 ^ 32" by linarith
  have "unat (ROUNDUP (n + 12) 4) = (unat (n + 12) + 3) div 4 * 4 mod 2 ^ 32"
    by (rule unat_ROUNDUP_ptr)
  also have "\<dots> = (unat n + 12 + 3) div 4 * 4 mod 2 ^ 32"
    by (simp only: n12)
  also have "\<dots> = (unat n + 12 + 3) div 4 * 4"
    using lt by (rule mod_less)
  finally have ru: "unat (ROUNDUP (n + 12) 4) = (unat n + 12 + 3) div 4 * 4" .
  from le r have "unat (ROUNDUP (n + 12) 4) + unat (alloc_alignment a) < 2 ^ 32"
    unfolding ru by linarith
  then have "unat (ROUNDUP (n + 12) 4 + alloc_alignment a)
      = unat (ROUNDUP (n + 12) 4) + unat (alloc_alignment a)"
    by (simp add: unat_add_lem [THEN iffD1])
  then show ?thesis
    by (simp add: alloc_size_plus m ru add.assoc)
qed

lemma alloc_size_ge:
  assumes "request_in_range n a"
  shows "unat n + 12 + unat (alloc_alignment a) \<le> unat (alloc_size n a)"
proof -
  have "unat n + 12 \<le> (unat n + 15) div 4 * 4" by presburger
  then show ?thesis by (simp add: unat_alloc_size [OF assms])
qed

lemma user_ptr_bounds:
  assumes "request_in_range n a"
    and "unat S + unat (alloc_size n a) < 2 ^ 32"
  shows "unat S + 12 \<le> unat (user_ptr S a) \<and>
         unat (user_ptr S a) + unat n \<le> unat S + unat (alloc_size n a)"
proof -
  from alloc_size_ge [OF assms(1)]
  have ge: "unat n + 12 + unat (alloc_alignment a) \<le> unat (alloc_size n a)" .
  with assms(2) have "unat S + unat (12 :: 32 word) < 2 ^ 32" by simp
  then have s12: "unat (S + 12) = unat S + 12"
    by (simp add: unat_add_lem [THEN iffD1])
  show ?thesis
  proof (cases "alloc_alignment a > 0")
    case False
    then have "user_ptr S a = S + 12"
      by (simp add: user_ptr_def sizeof_alloc_struct_begin_def)
    with ge s12 show ?thesis by simp
  next
    case True
    then have pos: "0 < unat (alloc_alignment a)"
      by (simp add: word_less_nat_alt)
    from ge assms(2) pos have "unat (S + 12) + (unat (alloc_alignment a) - 1) < 2 ^ 32"
      unfolding s12 by linarith
    from ROUNDUP_bounds [OF pos this] True ge pos show ?thesis
      unfolding s12 by (simp add: user_ptr_def sizeof_alloc_struct_begin_def)
  qed
qed

text \<open>The chunk that the walk of \<open>heap_alloc\<close> stops at.\<close>

lemma dropWhile_fit:
  assumes "dropWhile (\<lambda>chunk. \<not> s \<le> snd chunk) fl = K # post"
  shows "K \<in> set fl \<and> s \<le> snd K \<and>
         fl = takeWhile (\<lambda>chunk. \<not> s \<le> snd chunk) fl @ K # post"
proof -
  from assms have "K \<in> set fl"
    using set_dropWhileD [of K "\<lambda>chunk. \<not> s \<le> snd chunk" fl] by simp
  moreover from assms have "s \<le> snd K"
    using hd_dropWhile [of "\<lambda>chunk. \<not> s \<le> snd chunk" fl] by simp
  moreover from assms have "fl = takeWhile (\<lambda>chunk. \<not> s \<le> snd chunk) fl @ K # post"
    using takeWhile_dropWhile_id [of "\<lambda>chunk. \<not> s \<le> snd chunk" fl] by simp
  ultimately show ?thesis by simp
qed

lemma dropWhile_no_fit:
  "dropWhile (\<lambda>chunk. \<not> (s :: 32 word) \<le> snd chunk) fl = [] \<longleftrightarrow>
     (\<forall>c \<in> set fl. snd c < s)"
  by (simp add: not_le)

text \<open>
  For a request in range, on a heap whose chunks lie in the region: the pointer of a
  chunk that fits is not \<open>NULL\<close>, lies behind the header and leaves room for the
  request in the span.
\<close>

lemma fit_user_ptr:
  assumes "chunks_in_region h" and "request_in_range n a"
    and "K \<in> set (free_list h)" and "alloc_size n a \<le> snd K"
  shows "user_ptr (fst K) a \<noteq> 0 \<and>
         unat (fst K) + 12 \<le> unat (user_ptr (fst K) a) \<and>
         unat (user_ptr (fst K) a) + unat n \<le> unat (fst K) + unat (alloc_size n a)"
proof -
  from assms(1,3) have "unat (fst K) + unat (snd K) < 2 ^ 32"
    by (auto simp add: chunks_in_region_def)
  moreover from assms(4) have "unat (alloc_size n a) \<le> unat (snd K)"
    by (simp add: word_le_nat_alt)
  ultimately have "unat (fst K) + unat (alloc_size n a) < 2 ^ 32" by simp
  from user_ptr_bounds [OF assms(2) this]
  have b: "unat (fst K) + 12 \<le> unat (user_ptr (fst K) a) \<and>
         unat (user_ptr (fst K) a) + unat n \<le> unat (fst K) + unat (alloc_size n a)" .
  then have "unat (user_ptr (fst K) a) \<noteq> 0" by simp
  then have "user_ptr (fst K) a \<noteq> 0" by (simp add: unat_eq_zero)
  with b show ?thesis by simp
qed

text \<open>
  For a request in range, \<open>heap_alloc\<close> returns \<open>NULL\<close> exactly when the alignment
  is not a power of two or zero, or no free chunk has the normalised size.
\<close>

lemma heap_alloc_null_iff:
  assumes "chunks_in_region h" and "request_in_range n a"
  shows "snd (heap_alloc h n a) = 0 \<longleftrightarrow>
         a AND (a - 1) \<noteq> 0 \<or> (\<forall>c \<in> set (free_list h). snd c < alloc_size n a)"
proof (cases "a AND (a - 1) = 0")
  case False
  then show ?thesis by (simp add: heap_alloc_bad_alignment)
next
  case a: True
  show ?thesis
  proof (cases "dropWhile (\<lambda>chunk. \<not> alloc_size n a \<le> snd chunk) (free_list h)")
    case Nil
    from heap_alloc_no_fit [OF a Nil] Nil a show ?thesis
      by (simp only: dropWhile_no_fit) simp
  next
    case (Cons K post)
    from dropWhile_fit [OF Cons] have K: "K \<in> set (free_list h)" "alloc_size n a \<le> snd K"
      by simp_all
    from fit_user_ptr [OF assms K] have "user_ptr (fst K) a \<noteq> 0" by simp
    moreover from K have "\<not> (\<forall>c \<in> set (free_list h). snd c < alloc_size n a)"
      by (auto simp add: not_less)
    ultimately show ?thesis
      using a by (simp add: heap_alloc_fit [OF a Cons])
  qed
qed

text \<open>
  For a request in range, a call that returns \<open>NULL\<close> leaves the heap as it was.
\<close>

lemma heap_alloc_null_unchanged:
  assumes "chunks_in_region h" and "request_in_range n a"
    and "snd (heap_alloc h n a) = 0"
  shows "fst (heap_alloc h n a) = h"
proof (cases "a AND (a - 1) = 0")
  case False
  then show ?thesis by (simp add: heap_alloc_bad_alignment)
next
  case a: True
  with heap_alloc_null_iff [OF assms(1,2)] assms(3)
  have "\<forall>c \<in> set (free_list h). snd c < alloc_size n a" by simp
  then have "dropWhile (\<lambda>chunk. \<not> alloc_size n a \<le> snd chunk) (free_list h) = []"
    by (simp only: dropWhile_no_fit)
  from heap_alloc_no_fit [OF a this] show ?thesis by simp
qed

text \<open>
  For a request in range, the user region lies behind the header and inside the
  recorded span.
\<close>

lemma heap_alloc_fits:
  assumes "chunks_in_region h" and "request_in_range n a"
    and "snd (heap_alloc h n a) \<noteq> 0"
  shows "unat (span_base (fst (heap_alloc h n a)) (snd (heap_alloc h n a)))
           + unat sizeof_alloc_struct_begin \<le> unat (snd (heap_alloc h n a)) \<and>
         unat (snd (heap_alloc h n a)) + unat n
           \<le> unat (span_base (fst (heap_alloc h n a)) (snd (heap_alloc h n a)))
             + unat (span_size (fst (heap_alloc h n a)) (snd (heap_alloc h n a)))"
proof -
  from assms(3) have a: "a AND (a - 1) = 0"
    using heap_alloc_bad_alignment [of a h n] by (cases "a AND (a - 1) = 0") simp_all
  from assms(3) a obtain K post
    where d: "dropWhile (\<lambda>chunk. \<not> alloc_size n a \<le> snd chunk) (free_list h) = K # post"
    using heap_alloc_no_fit [OF a, of n h]
    by (cases "dropWhile (\<lambda>chunk. \<not> alloc_size n a \<le> snd chunk) (free_list h)") auto
  from dropWhile_fit [OF d] have K: "K \<in> set (free_list h)" "alloc_size n a \<le> snd K"
    by simp_all
  from K(2) have "unat (alloc_size n a) \<le> unat (snd K)" by (simp add: word_le_nat_alt)
  with fit_user_ptr [OF assms(1,2) K] show ?thesis
    by (simp add: heap_alloc_fit [OF a d] span_base_def span_size_def
        sizeof_alloc_struct_begin_def)
qed

section \<open>Ascending lists of chunks\<close>

lemma asc_Cons:
  "ascending_nonadjacent (c # cs) \<longleftrightarrow>
     (cs = [] \<or> (chunk_end c < unat (fst (hd cs)) \<and> ascending_nonadjacent cs))"
  by (cases cs) (auto simp add: chunk_end_def word_less_nat_alt)

lemma asc_append:
  "ascending_nonadjacent (xs @ ys) \<longleftrightarrow>
     ascending_nonadjacent xs \<and> ascending_nonadjacent ys \<and>
     (xs = [] \<or> ys = [] \<or> chunk_end (last xs) < unat (fst (hd ys)))"
proof (induction xs)
  case Nil
  show ?case by simp
next
  case (Cons x xs)
  show ?case
  proof (cases xs)
    case Nil
    then show ?thesis by (cases ys) (auto simp add: asc_Cons)
  next
    case (Cons x' xs')
    with Cons.IH show ?thesis by (auto simp add: asc_Cons)
  qed
qed

lemma bytes_of_disjoint_before:
  assumes "bytes_of x \<inter> bytes_of c = {}" and "unat (fst x) \<le> unat (fst c)"
    and "0 < unat (snd c)"
  shows "chunk_end x \<le> unat (fst c)"
proof (rule ccontr)
  assume "\<not> chunk_end x \<le> unat (fst c)"
  with assms(2,3) have "unat (fst c) \<in> bytes_of x \<inter> bytes_of c"
    by (simp add: bytes_of_def chunk_end_def)
  with assms(1) show False by simp
qed

lemma bytes_of_adjacent:
  assumes "chunk_end x = unat (fst c)" and "chunk_end c < 2 ^ 32"
  shows "unat (snd x + snd c) = unat (snd x) + unat (snd c)"
    and "bytes_of (fst x, snd x + snd c) = bytes_of x \<union> bytes_of c"
    and "chunk_end (fst x, snd x + snd c) = chunk_end c"
proof -
  from assms have "unat (snd x) + unat (snd c) < 2 ^ 32"
    by (simp add: chunk_end_def)
  then show l: "unat (snd x + snd c) = unat (snd x) + unat (snd c)"
    by (simp add: unat_add_lem [THEN iffD1])
  from assms(1) show "bytes_of (fst x, snd x + snd c) = bytes_of x \<union> bytes_of c"
    by (auto simp add: bytes_of_def l chunk_end_def)
  from assms(1) show "chunk_end (fst x, snd x + snd c) = chunk_end c"
    by (simp add: chunk_end_def l)
qed

lemma word_end_eq:
  assumes "chunk_end x < 2 ^ 32"
  shows "fst x + snd x = a \<longleftrightarrow> chunk_end x = unat a"
proof -
  from assms have "unat (fst x + snd x) = chunk_end x"
    by (simp add: chunk_end_def unat_add_lem [THEN iffD1])
  then show ?thesis by (metis word_unat_eq_iff)
qed

lemma merge_last_chunk_props:
  assumes "ascending_nonadjacent pre"
    and "\<forall>x \<in> set pre. chunk_end x \<le> unat (fst c)"
    and "chunk_end c < 2 ^ 32"
  shows "ascending_nonadjacent (fst (merge_last_chunk pre c)) \<and>
    (fst (merge_last_chunk pre c) = [] \<or>
         chunk_end (last (fst (merge_last_chunk pre c))) < unat (fst (snd (merge_last_chunk pre c)))) \<and>
    chunk_end (snd (merge_last_chunk pre c)) = chunk_end c \<and>
    bytes_of_list (fst (merge_last_chunk pre c)) \<union> bytes_of (snd (merge_last_chunk pre c))
         = bytes_of_list pre \<union> bytes_of c \<and>
    len_sum (fst (merge_last_chunk pre c)) + unat (snd (snd (merge_last_chunk pre c)))
         = len_sum pre + unat (snd c) \<and>
    set (fst (merge_last_chunk pre c)) \<subseteq> set pre \<and>
    unat (snd c) \<le> unat (snd (snd (merge_last_chunk pre c))) \<and>
    (\<exists>y \<in> insert c (set pre). fst (snd (merge_last_chunk pre c)) = fst y \<and>
            unat (snd y) \<le> unat (snd (snd (merge_last_chunk pre c))))"
proof (cases pre rule: rev_cases)
  case Nil
  then show ?thesis by (simp add: merge_last_chunk_def)
next
  case (snoc ys x)
  from assms(2) snoc have xe: "chunk_end x \<le> unat (fst c)" by simp
  have "unat (fst c) < 2 ^ 32" using unsigned_less [of "fst c"] by simp
  with xe have x32: "chunk_end x < 2 ^ 32" by simp
  from assms(1) snoc have ys: "ascending_nonadjacent ys"
    and yx: "ys = [] \<or> chunk_end (last ys) < unat (fst x)"
    by (simp_all add: asc_append)
  show ?thesis
  proof (cases "fst x + snd x = fst c")
    case True
    then have adj: "chunk_end x = unat (fst c)" by (simp add: word_end_eq [OF x32])
    from True snoc have m: "merge_last_chunk pre c = (ys, (fst x, snd x + snd c))"
      by (simp add: merge_last_chunk_def)
    have "x \<in> insert c (set pre)" using snoc by simp
    moreover have "unat (snd x) \<le> unat (snd x + snd c)"
      using bytes_of_adjacent(1) [OF adj assms(3)] by simp
    ultimately have ex: "\<exists>y \<in> insert c (set pre). fst (snd (ys, (fst x, snd x + snd c))) = fst y \<and>
          unat (snd y) \<le> unat (snd (snd (ys, (fst x, snd x + snd c))))"
      by (intro bexI [of _ x]) simp_all
    from bytes_of_adjacent [OF adj assms(3)] ys yx snoc show ?thesis
      unfolding m using ex by (auto simp add: bytes_of_list_def len_sum_def simp del: insert_iff)
  next
    case False
    then have "chunk_end x \<noteq> unat (fst c)" by (simp add: word_end_eq [OF x32])
    with xe have lt: "chunk_end x < unat (fst c)" by simp
    from False snoc have m: "merge_last_chunk pre c = (pre, c)"
      by (simp add: merge_last_chunk_def)
    from lt assms(1) snoc show ?thesis
      unfolding m by simp
  qed
qed

lemma merge_next_chunk_props:
  assumes "ascending_nonadjacent post"
    and "post \<noteq> [] \<longrightarrow> chunk_end c \<le> unat (fst (hd post))"
    and "\<forall>x \<in> set post. chunk_end x \<le> E" and "chunk_end c \<le> E" and "E < 2 ^ 32"
  shows "ascending_nonadjacent (fst (merge_next_chunk c post) # snd (merge_next_chunk c post))
    \<and> fst (fst (merge_next_chunk c post)) = fst c
    \<and> unat (snd c) \<le> unat (snd (fst (merge_next_chunk c post)))
    \<and> chunk_end (fst (merge_next_chunk c post)) \<le> E
    \<and> bytes_of (fst (merge_next_chunk c post)) \<union> bytes_of_list (snd (merge_next_chunk c post))
         = bytes_of c \<union> bytes_of_list post
    \<and> unat (snd (fst (merge_next_chunk c post))) + len_sum (snd (merge_next_chunk c post))
         = unat (snd c) + len_sum post
    \<and> set (snd (merge_next_chunk c post)) \<subseteq> set post"
proof (cases post)
  case Nil
  with assms(4) show ?thesis by (simp add: merge_next_chunk_def bytes_of_list_def len_sum_def)
next
  case (Cons x rest)
  from assms(2) Cons have ce: "chunk_end c \<le> unat (fst x)" by simp
  from assms(4,5) have c32: "chunk_end c < 2 ^ 32" by simp
  from assms(3,5) Cons have x32: "chunk_end x < 2 ^ 32" by auto
  from assms(3) Cons have xE: "chunk_end x \<le> E" by simp
  from assms(1) Cons have rest: "rest = [] \<or> (chunk_end x < unat (fst (hd rest)) \<and> ascending_nonadjacent rest)"
    by (simp add: asc_Cons)
  show ?thesis
  proof (cases "fst c + snd c = fst x")
    case True
    then have adj: "chunk_end c = unat (fst x)" by (simp add: word_end_eq [OF c32])
    from True Cons have m: "merge_next_chunk c post = ((fst c, snd c + snd x), rest)"
      by (simp add: merge_next_chunk_def)
    from bytes_of_adjacent [OF adj x32] rest xE Cons assms(3) show ?thesis
      unfolding m by (auto simp add: bytes_of_list_def len_sum_def asc_Cons)
  next
    case False
    then have "chunk_end c \<noteq> unat (fst x)" by (simp add: word_end_eq [OF c32])
    with ce have lt: "chunk_end c < unat (fst x)" by simp
    from False Cons have m: "merge_next_chunk c post = (c, post)"
      by (simp add: merge_next_chunk_def)
    from lt assms(1,4) Cons show ?thesis
      unfolding m by (simp add: asc_Cons)
  qed
qed

text \<open>
  Inserting a chunk that is disjoint from the chunks of an ascending free list, all
  below the end \<open>E\<close> of the region.
\<close>

lemma heap_insert_free_chunk_props:
  assumes asc: "ascending_nonadjacent fl"
    and reg: "\<forall>x \<in> set fl. chunk_end x \<le> E" and cE: "chunk_end c \<le> E" and E: "E < 2 ^ 32"
    and pos: "\<forall>x \<in> set fl. 0 < unat (snd x)" and cpos: "0 < unat (snd c)"
    and dis: "\<forall>x \<in> set fl. bytes_of x \<inter> bytes_of c = {}"
  shows "ascending_nonadjacent (fst (heap_insert_free_chunk fl c))
    \<and> bytes_of_list (fst (heap_insert_free_chunk fl c)) = bytes_of c \<union> bytes_of_list fl
    \<and> len_sum (fst (heap_insert_free_chunk fl c)) = len_sum fl + unat (snd c)
    \<and> (\<forall>x \<in> set (fst (heap_insert_free_chunk fl c)).
          chunk_end x \<le> E \<and>
          (\<exists>y \<in> insert c (set fl). fst x = fst y \<and> unat (snd y) \<le> unat (snd x)))"
proof -
  define pre where "pre = takeWhile (\<lambda>next_chunk. \<not> fst c < fst next_chunk) fl"
  define post where "post = dropWhile (\<lambda>next_chunk. \<not> fst c < fst next_chunk) fl"
  define r1 where "r1 = merge_last_chunk pre c"
  define r2 where "r2 = merge_next_chunk (snd r1) post"
  have res: "fst (heap_insert_free_chunk fl c) = fst r1 @ fst r2 # snd r2"
    by (simp add: heap_insert_free_chunk_def Let_def pre_def post_def r1_def r2_def
        split: prod.split)
  have fl: "fl = pre @ post" by (simp add: pre_def post_def)
  from asc fl have apre: "ascending_nonadjacent pre" and apost: "ascending_nonadjacent post"
    by (simp_all add: asc_append)
  have "\<forall>x \<in> set pre. \<not> fst c < fst x"
    using set_takeWhileD [of _ "\<lambda>next_chunk. \<not> fst c < fst next_chunk" fl]
    by (auto simp add: pre_def)
  then have "\<forall>x \<in> set pre. unat (fst x) \<le> unat (fst c)"
    by (simp add: word_less_nat_alt not_less)
  moreover have "\<forall>x \<in> set pre. bytes_of x \<inter> bytes_of c = {}" using dis fl by simp
  ultimately have pre_end: "\<forall>x \<in> set pre. chunk_end x \<le> unat (fst c)"
    using bytes_of_disjoint_before cpos by blast
  from cE E have c32: "chunk_end c < 2 ^ 32" by simp
  note m1' = merge_last_chunk_props [OF apre pre_end c32, folded r1_def]
  from m1' have m1: "ascending_nonadjacent (fst r1)"
    "fst r1 = [] \<or> chunk_end (last (fst r1)) < unat (fst (snd r1))"
    "chunk_end (snd r1) = chunk_end c"
    "bytes_of_list (fst r1) \<union> bytes_of (snd r1) = bytes_of_list pre \<union> bytes_of c"
    "len_sum (fst r1) + unat (snd (snd r1)) = len_sum pre + unat (snd c)"
    "set (fst r1) \<subseteq> set pre"
    "unat (snd c) \<le> unat (snd (snd r1))"
    by blast+
  from m1' have m18: "\<exists>y \<in> insert c (set pre). fst (snd r1) = fst y \<and>
            unat (snd y) \<le> unat (snd (snd r1))"
    by blast
  have post_hd: "post \<noteq> [] \<longrightarrow> chunk_end (snd r1) \<le> unat (fst (hd post))"
  proof
    assume ne: "post \<noteq> []"
    then have "fst c < fst (hd post)"
      using hd_dropWhile [of "\<lambda>next_chunk. \<not> fst c < fst next_chunk" fl]
      by (simp add: post_def)
    then have lt: "unat (fst c) \<le> unat (fst (hd post))" by (simp add: word_less_nat_alt)
    from ne fl have mem: "hd post \<in> set fl" by simp
    with dis have "bytes_of c \<inter> bytes_of (hd post) = {}" by blast
    from bytes_of_disjoint_before [OF this lt] pos mem
    have "chunk_end c \<le> unat (fst (hd post))" by simp
    with m1(3) show "chunk_end (snd r1) \<le> unat (fst (hd post))" by simp
  qed
  from reg fl have regpost: "\<forall>x \<in> set post. chunk_end x \<le> E" by simp
  from m1(3) cE have r1E: "chunk_end (snd r1) \<le> E" by simp
  note m2 = merge_next_chunk_props [OF apost post_hd regpost r1E E, folded r2_def]
  from m2 have a2: "ascending_nonadjacent (fst r2 # snd r2)" by simp
  from m2 have f2: "fst (fst r2) = fst (snd r1)" by simp
  have A: "ascending_nonadjacent (fst r1 @ fst r2 # snd r2)"
    using m1(1,2) a2 f2 by (simp add: asc_append)
  have B: "bytes_of_list (fst r1 @ fst r2 # snd r2) = bytes_of c \<union> bytes_of_list fl"
  proof -
    have "bytes_of_list (fst r1 @ fst r2 # snd r2)
        = bytes_of_list (fst r1) \<union> (bytes_of (fst r2) \<union> bytes_of_list (snd r2))"
      by (auto simp add: bytes_of_list_def)
    also have "\<dots> = bytes_of_list (fst r1) \<union> (bytes_of (snd r1) \<union> bytes_of_list post)"
      using m2 by simp
    also have "\<dots> = (bytes_of_list pre \<union> bytes_of c) \<union> bytes_of_list post"
      using m1(4) by (simp add: Un_assoc [symmetric])
    also have "\<dots> = bytes_of c \<union> bytes_of_list fl"
      unfolding fl by (auto simp add: bytes_of_list_def)
    finally show ?thesis .
  qed
  have C: "len_sum (fst r1 @ fst r2 # snd r2) = len_sum fl + unat (snd c)"
  proof -
    have "len_sum (fst r1 @ fst r2 # snd r2)
        = len_sum (fst r1) + (unat (snd (fst r2)) + len_sum (snd r2))"
      by (simp add: len_sum_def)
    also have "\<dots> = len_sum (fst r1) + (unat (snd (snd r1)) + len_sum post)"
      using m2 by simp
    also have "\<dots> = len_sum pre + unat (snd c) + len_sum post"
      using m1(5) by simp
    finally show ?thesis unfolding fl by (simp add: len_sum_def)
  qed
  have D: "\<forall>x \<in> set (fst r1 @ fst r2 # snd r2).
          chunk_end x \<le> E \<and>
          (\<exists>y \<in> insert c (set fl). fst x = fst y \<and> unat (snd y) \<le> unat (snd x))"
  proof
    fix x assume "x \<in> set (fst r1 @ fst r2 # snd r2)"
    then consider "x \<in> set (fst r1)" | "x = fst r2" | "x \<in> set (snd r2)" by auto
    then show "chunk_end x \<le> E \<and>
          (\<exists>y \<in> insert c (set fl). fst x = fst y \<and> unat (snd y) \<le> unat (snd x))"
    proof cases
      case 1
      with m1(6) fl have "x \<in> set fl" by auto
      with reg show ?thesis by auto
    next
      case 2
      from m2 have e: "chunk_end (fst r2) \<le> E" and l: "unat (snd (snd r1)) \<le> unat (snd (fst r2))"
        by simp_all
      from m18 obtain y where y: "y \<in> insert c (set pre)" "fst (snd r1) = fst y"
        "unat (snd y) \<le> unat (snd (snd r1))" by blast
      from y(1) fl have "y \<in> insert c (set fl)" by auto
      with y(2,3) f2 l e 2 show ?thesis by auto
    next
      case 3
      with m2 fl have "x \<in> set fl" by auto
      with reg show ?thesis by auto
    qed
  qed
  from A B C D show ?thesis unfolding res by simp
qed

lemma asc_Cons_all:
  "ascending_nonadjacent (K # post) \<Longrightarrow> \<forall>x \<in> set post. chunk_end K < unat (fst x)"
proof (induction post arbitrary: K)
  case Nil
  show ?case by simp
next
  case (Cons y ys)
  from Cons.prems have g: "chunk_end K < unat (fst y)" and a: "ascending_nonadjacent (y # ys)"
    by (simp_all add: asc_Cons)
  from Cons.IH [OF a] have "\<forall>x \<in> set ys. chunk_end y < unat (fst x)" .
  moreover have "unat (fst y) \<le> chunk_end y" by (simp add: chunk_end_def)
  ultimately show ?case using g by auto
qed

lemma asc_snoc_all:
  "ascending_nonadjacent (pre @ [K]) \<Longrightarrow> \<forall>x \<in> set pre. chunk_end x < unat (fst K)"
proof (induction pre)
  case Nil
  show ?case by simp
next
  case (Cons y ys)
  from Cons.prems have a: "ascending_nonadjacent (y # (ys @ [K]))" by simp
  then have "ascending_nonadjacent (ys @ [K])" by (simp add: asc_Cons)
  from Cons.IH [OF this] have "\<forall>x \<in> set ys. chunk_end x < unat (fst K)" .
  moreover from asc_Cons_all [OF a] have "chunk_end y < unat (fst K)" by simp
  ultimately show ?case by simp
qed

lemma asc_middle:
  assumes "ascending_nonadjacent (pre @ K # post)"
  shows "(\<forall>x \<in> set pre. chunk_end x < unat (fst K)) \<and>
         (\<forall>x \<in> set post. chunk_end K < unat (fst x))"
proof -
  from assms have "ascending_nonadjacent ((pre @ [K]) @ post)" by simp
  then have "ascending_nonadjacent (pre @ [K])" by (simp only: asc_append)
  from asc_snoc_all [OF this] have "\<forall>x \<in> set pre. chunk_end x < unat (fst K)" .
  moreover from assms have "ascending_nonadjacent (K # post)" by (simp add: asc_append)
  from asc_Cons_all [OF this] have "\<forall>x \<in> set post. chunk_end K < unat (fst x)" .
  ultimately show ?thesis by simp
qed

text \<open>Replacing a chunk by one that begins no earlier and ends at the same place.\<close>

lemma asc_replace:
  assumes "ascending_nonadjacent (pre @ K # post)"
    and "unat (fst K) \<le> unat (fst N)" and "chunk_end N = chunk_end K"
  shows "ascending_nonadjacent (pre @ N # post)"
proof -
  from assms(1) have p: "ascending_nonadjacent pre" and k: "ascending_nonadjacent (K # post)"
    and g: "pre = [] \<or> chunk_end (last pre) < unat (fst K)"
    by (simp_all add: asc_append)
  from k assms(3) have "ascending_nonadjacent (N # post)" by (simp add: asc_Cons)
  with p g assms(2) show ?thesis by (auto simp add: asc_append)
qed

lemma asc_remove:
  assumes "ascending_nonadjacent (pre @ K # post)"
  shows "ascending_nonadjacent (pre @ post)"
proof -
  from assms have p: "ascending_nonadjacent pre" and k: "ascending_nonadjacent (K # post)"
    and g: "pre = [] \<or> chunk_end (last pre) < unat (fst K)"
    by (simp_all add: asc_append)
  from k have po: "ascending_nonadjacent post" and h: "post = [] \<or> chunk_end K < unat (fst (hd post))"
    by (auto simp add: asc_Cons)
  have "unat (fst K) \<le> chunk_end K" by (simp add: chunk_end_def)
  with p po g h show ?thesis by (auto simp add: asc_append)
qed

text \<open>The tail of a chunk that is cut at \<open>s\<close> bytes.\<close>

lemma chunk_tail:
  assumes "unat s \<le> unat (snd K)" and "chunk_end K < 2 ^ 32"
  shows "unat (fst K + s) = unat (fst K) + unat s"
    and "unat (snd K - s) = unat (snd K) - unat s"
    and "chunk_end (fst K + s, snd K - s) = chunk_end K"
    and "bytes_of (fst K, s) \<union> bytes_of (fst K + s, snd K - s) = bytes_of K"
    and "bytes_of (fst K, s) \<inter> bytes_of (fst K + s, snd K - s) = {}"
proof -
  from assms have "unat (fst K) + unat s < 2 ^ 32" by (simp add: chunk_end_def)
  then show a: "unat (fst K + s) = unat (fst K) + unat s"
    by (simp add: unat_add_lem [THEN iffD1])
  from assms(1) show l: "unat (snd K - s) = unat (snd K) - unat s"
    by (simp add: unat_sub word_le_nat_alt)
  from assms(1) show "chunk_end (fst K + s, snd K - s) = chunk_end K"
    by (simp add: chunk_end_def a l)
  from assms(1) show "bytes_of (fst K, s) \<union> bytes_of (fst K + s, snd K - s) = bytes_of K"
    by (auto simp add: bytes_of_def a l)
  show "bytes_of (fst K, s) \<inter> bytes_of (fst K + s, snd K - s) = {}"
    by (auto simp add: bytes_of_def a l)
qed

lemma bytes_of_ordered:
  assumes "bytes_of x \<inter> bytes_of y = {}" and "0 < unat (snd x)" and "0 < unat (snd y)"
  shows "chunk_end x \<le> unat (fst y) \<or> chunk_end y \<le> unat (fst x)"
proof (cases "unat (fst x) \<le> unat (fst y)")
  case True
  from bytes_of_disjoint_before [OF assms(1) True assms(3)] show ?thesis by simp
next
  case False
  then have le: "unat (fst y) \<le> unat (fst x)" by simp
  from assms(1) have "bytes_of y \<inter> bytes_of x = {}" by auto
  from bytes_of_disjoint_before [OF this le assms(2)] show ?thesis by simp
qed

section \<open>The invariant of a run\<close>

lemma free_bytes_len_sum: "free_bytes h = len_sum (free_list h)"
  by (simp add: free_bytes_def len_sum_def)

lemma live_bytes_remove1:
  assumes "p \<in> set live"
  shows "live_bytes h live = unat (span_size h p) + live_bytes h (remove1 p live)"
  unfolding live_bytes_def using assms by (induction live) auto

lemma heap_free_eq:
  "p \<noteq> 0 \<Longrightarrow> heap_free h p =
     h\<lparr>free_list := fst (heap_insert_free_chunk (free_list h) (span h p))\<rparr>"
  by (simp add: heap_free_def Let_def span_def span_base_def span_size_def
      heap_create_free_chunk_def)

lemma heap_free_inv:
  assumes inv: "heap_inv h live" and p: "p \<in> set live" and p0: "p \<noteq> 0"
  shows "heap_inv (heap_free h p) (remove1 p live)"
proof -
  define E where "E = unat (base h) + unat (len h)"
  define c where "c = span h p"
  define fl' where "fl' = fst (heap_insert_free_chunk (free_list h) c)"
  have h': "heap_free h p = h\<lparr>free_list := fl'\<rparr>"
    using heap_free_eq [OF p0] by (simp add: fl'_def c_def)
  from inv have E: "E < 2 ^ 32"
    and reg: "\<forall>x \<in> set (free_list h). unat (base h) \<le> unat (fst x) \<and> chunk_end x \<le> E"
    and asc: "ascending_nonadjacent (free_list h)"
    and big: "\<forall>x \<in> set (free_list h). 12 \<le> unat (snd x)"
    and dist: "distinct live"
    and sum: "free_bytes h + live_bytes h live = unat (len h)"
    by (simp_all add: heap_inv_def chunks_in_region_def E_def chunk_end_def
        sizeof_free_heap_chunk_def)
  from inv have live: "\<forall>q \<in> set live.
        unat (base h) \<le> unat (span_base h q) \<and>
        unat (span_base h q) + unat (span_size h q) \<le> E \<and>
        unat (span_base h q) + 12 \<le> unat q \<and>
        unat q \<le> unat (span_base h q) + unat (span_size h q)"
    by (simp add: heap_inv_def E_def sizeof_alloc_struct_begin_def)
  from inv have dlf: "\<forall>q \<in> set live. \<forall>x \<in> set (free_list h). bytes_of (span h q) \<inter> bytes_of x = {}"
    and dll: "\<forall>q \<in> set live. \<forall>r \<in> set live.
        q \<noteq> r \<longrightarrow> bytes_of (span h q) \<inter> bytes_of (span h r) = {}"
    by (simp_all add: heap_inv_def)
  from live p have cb: "unat (base h) \<le> unat (fst c)" and cE: "chunk_end c \<le> E"
    and cbig: "12 \<le> unat (snd c)"
    by (auto simp add: c_def span_def chunk_end_def)
  from reg have reg': "\<forall>x \<in> set (free_list h). chunk_end x \<le> E" by simp
  from big have pos: "\<forall>x \<in> set (free_list h). 0 < unat (snd x)" by auto
  from cbig have cpos: "0 < unat (snd c)" by simp
  from dlf p have dis: "\<forall>x \<in> set (free_list h). bytes_of x \<inter> bytes_of c = {}"
    by (auto simp add: c_def)
  note ins = heap_insert_free_chunk_props [OF asc reg' cE E pos cpos dis, folded fl'_def]
  from ins have asc': "ascending_nonadjacent fl'"
    and bytes': "bytes_of_list fl' = bytes_of c \<union> bytes_of_list (free_list h)"
    and sum': "len_sum fl' = len_sum (free_list h) + unat (snd c)"
    and each: "\<forall>x \<in> set fl'. chunk_end x \<le> E \<and>
          (\<exists>y \<in> insert c (set (free_list h)). fst x = fst y \<and> unat (snd y) \<le> unat (snd x))"
    by blast+
  have reg2: "\<forall>x \<in> set fl'. unat (base h) \<le> unat (fst x) \<and> chunk_end x \<le> E \<and> 12 \<le> unat (snd x)"
  proof
    fix x assume "x \<in> set fl'"
    with each obtain y where e: "chunk_end x \<le> E" and y: "y \<in> insert c (set (free_list h))"
      "fst x = fst y" "unat (snd y) \<le> unat (snd x)" by blast
    from y(1) reg big cb cbig have "unat (base h) \<le> unat (fst y) \<and> 12 \<le> unat (snd y)" by auto
    with e y show "unat (base h) \<le> unat (fst x) \<and> chunk_end x \<le> E \<and> 12 \<le> unat (snd x)"
      by simp
  qed
  have sp: "span (h\<lparr>free_list := fl'\<rparr>) q = span h q" for q
    by (simp add: span_def span_base_def span_size_def)
  have sb: "span_base (h\<lparr>free_list := fl'\<rparr>) q = span_base h q"
    and ss: "span_size (h\<lparr>free_list := fl'\<rparr>) q = span_size h q" for q
    by (simp_all add: span_base_def span_size_def)
  have lb: "live_bytes (h\<lparr>free_list := fl'\<rparr>) l = live_bytes h l" for l
    by (simp add: live_bytes_def ss)
  have dlf': "\<forall>q \<in> set (remove1 p live). \<forall>x \<in> set fl'. bytes_of (span h q) \<inter> bytes_of x = {}"
  proof (intro ballI)
    fix q x assume q: "q \<in> set (remove1 p live)" and x: "x \<in> set fl'"
    from q dist have ql: "q \<in> set live" and qp: "q \<noteq> p" by auto
    from ql dlf have "bytes_of (span h q) \<inter> bytes_of_list (free_list h) = {}"
      by (auto simp add: bytes_of_list_def)
    moreover from dll ql p qp have "bytes_of (span h q) \<inter> bytes_of c = {}"
      by (simp add: c_def)
    ultimately have "bytes_of (span h q) \<inter> bytes_of_list fl' = {}"
      unfolding bytes' by auto
    with x show "bytes_of (span h q) \<inter> bytes_of x = {}"
      by (auto simp add: bytes_of_list_def)
  qed
  have sum2: "len_sum fl' + live_bytes h (remove1 p live) = unat (len h)"
    using sum sum' live_bytes_remove1 [OF p, of h]
    by (simp add: free_bytes_len_sum c_def span_def)
  show ?thesis
    unfolding h' heap_inv_def chunks_in_region_def
    using E reg2 asc' dist live dll dlf' sum2
    by (simp add: sb ss sp lb free_bytes_len_sum E_def chunk_end_def
        sizeof_free_heap_chunk_def sizeof_alloc_struct_begin_def)
qed

lemma split_test:
  assumes "request_in_range n a"
  shows "alloc_size n a + sizeof_free_heap_chunk < l \<longleftrightarrow> unat (alloc_size n a) + 12 < unat l"
proof -
  have "(unat n + 15) div 4 * 4 \<le> unat n + 15" by (rule div_times_less_eq_dividend)
  with assms have "unat (alloc_size n a) + unat (12 :: 32 word) < 2 ^ 32"
    by (simp add: unat_alloc_size [OF assms] request_in_range_def sizeof_alloc_struct_begin_def
        sizeof_free_heap_chunk_def sizeof_ptr_def)
  then have "unat (alloc_size n a + 12) = unat (alloc_size n a) + 12"
    by (simp add: unat_add_lem [THEN iffD1])
  then show ?thesis
    by (simp add: word_less_nat_alt sizeof_free_heap_chunk_def)
qed

text \<open>A successful \<open>heap_alloc\<close> for a request in range keeps the invariant.\<close>

lemma heap_alloc_fit_inv:
  assumes inv: "heap_inv h live" and rng: "request_in_range n a"
    and a: "a AND (a - 1) = 0"
    and d: "dropWhile (\<lambda>chunk. \<not> alloc_size n a \<le> snd chunk) (free_list h) = K # post"
  shows "heap_inv (fst (heap_alloc h n a)) (snd (heap_alloc h n a) # live)"
proof -
  define E where "E = unat (base h) + unat (len h)"
  define s where "s = alloc_size n a"
  define pre where "pre = takeWhile (\<lambda>chunk. \<not> s \<le> snd chunk) (free_list h)"
  define U where "U = user_ptr (fst K) a"
  define N where "N = (fst K + s, snd K - s)"
  define sp where "sp = (unat s + 12 < unat (snd K))"
  define eff where "eff = (if sp then s else snd K)"
  define fl' where "fl' = (if sp then pre @ N # post else pre @ post)"
  define m' where "m' = (mem h)(U - sizeof_alloc_struct_begin :=
             \<lparr>as_magic = HEAP_MAGIC, as_ptr = fst K, as_size = eff\<rparr>)"
  define h' where "h' = h\<lparr>free_list := fl', mem := m'\<rparr>"
  have res: "heap_alloc h n a = (h', U)"
    using heap_alloc_fit [OF a d]
    by (simp add: h'_def U_def fl'_def m'_def eff_def sp_def N_def pre_def s_def
        split_test [OF rng])
  from dropWhile_fit [OF d] have Kin: "K \<in> set (free_list h)" and Kfit: "s \<le> snd K"
    and fl: "free_list h = pre @ K # post"
    by (simp_all add: s_def pre_def)
  from inv have E: "E < 2 ^ 32"
    and reg: "\<forall>x \<in> set (free_list h). unat (base h) \<le> unat (fst x) \<and> chunk_end x \<le> E"
    and cir: "chunks_in_region h"
    and asc: "ascending_nonadjacent (free_list h)"
    and big: "\<forall>x \<in> set (free_list h). 12 \<le> unat (snd x)"
    and dist: "distinct live"
    and sum: "free_bytes h + live_bytes h live = unat (len h)"
    by (simp_all add: heap_inv_def chunks_in_region_def E_def chunk_end_def
        sizeof_free_heap_chunk_def)
  from inv have live: "\<forall>q \<in> set live.
        unat (base h) \<le> unat (span_base h q) \<and>
        unat (span_base h q) + unat (span_size h q) \<le> E \<and>
        unat (span_base h q) + 12 \<le> unat q \<and>
        unat q \<le> unat (span_base h q) + unat (span_size h q)"
    by (simp add: heap_inv_def E_def sizeof_alloc_struct_begin_def)
  from inv have dlf: "\<forall>q \<in> set live. \<forall>x \<in> set (free_list h). bytes_of (span h q) \<inter> bytes_of x = {}"
    and dll: "\<forall>q \<in> set live. \<forall>r \<in> set live.
        q \<noteq> r \<longrightarrow> bytes_of (span h q) \<inter> bytes_of (span h r) = {}"
    by (simp_all add: heap_inv_def)
  \<comment> \<open>the chunk taken\<close>
  from reg Kin have Kb: "unat (base h) \<le> unat (fst K)" and KE: "chunk_end K \<le> E" by auto
  from KE E have K32: "chunk_end K < 2 ^ 32" by simp
  from Kfit have sle: "unat s \<le> unat (snd K)" by (simp add: word_le_nat_alt)
  from alloc_size_ge [OF rng] have s12: "12 \<le> unat s" and sn: "unat n + 12 \<le> unat s"
    by (simp_all add: s_def)
  note tail = chunk_tail [OF sle K32, folded N_def]
  from fit_user_ptr [OF cir rng Kin] Kfit
  have U0: "U \<noteq> 0" and UL: "unat (fst K) + 12 \<le> unat U"
    and UH: "unat U + unat n \<le> unat (fst K) + unat s"
    by (simp_all add: U_def s_def)
  have effs: "unat s \<le> unat eff" and effK: "unat eff \<le> unat (snd K)"
    using sle by (simp_all add: eff_def)
  have Ueff: "unat U \<le> unat (fst K) + unat eff" using UH effs by simp
  \<comment> \<open>the new free list\<close>
  from asc fl have ascK: "ascending_nonadjacent (pre @ K # post)" by simp
  have asc': "ascending_nonadjacent fl'"
    using asc_replace [OF ascK, of N] asc_remove [OF ascK] tail(1,3)
    by (simp add: fl'_def N_def)
  have sub: "set fl' \<subseteq> (if sp then insert N (set (free_list h)) else set (free_list h))"
    by (auto simp add: fl'_def fl)
  have Nprops: "sp \<Longrightarrow> unat (base h) \<le> unat (fst N) \<and> chunk_end N \<le> E \<and> 12 \<le> unat (snd N)"
    using tail(1,2,3) Kb KE by (simp add: N_def sp_def)
  have reg2: "\<forall>x \<in> set fl'. unat (base h) \<le> unat (fst x) \<and> chunk_end x \<le> E \<and> 12 \<le> unat (snd x)"
  proof
    fix x assume "x \<in> set fl'"
    with sub have "(sp \<and> x = N) \<or> x \<in> set (free_list h)" by (auto split: if_splits)
    with Nprops reg big
    show "unat (base h) \<le> unat (fst x) \<and> chunk_end x \<le> E \<and> 12 \<le> unat (snd x)" by auto
  qed
  have bytes_sub: "\<forall>x \<in> set fl'. \<exists>y \<in> set (free_list h). bytes_of x \<subseteq> bytes_of y"
  proof
    fix x assume "x \<in> set fl'"
    with sub have "(sp \<and> x = N) \<or> x \<in> set (free_list h)" by (auto split: if_splits)
    then show "\<exists>y \<in> set (free_list h). bytes_of x \<subseteq> bytes_of y"
    proof
      assume "sp \<and> x = N"
      with tail(4) have "bytes_of x \<subseteq> bytes_of K" by auto
      with Kin show ?thesis by blast
    next
      assume "x \<in> set (free_list h)"
      then show ?thesis by blast
    qed
  qed
  \<comment> \<open>the new span\<close>
  have spanK: "bytes_of (fst K, eff) \<subseteq> bytes_of K"
    using effK by (auto simp add: bytes_of_def)
  have span_fl': "\<forall>x \<in> set fl'. bytes_of (fst K, eff) \<inter> bytes_of x = {}"
  proof
    fix x assume x: "x \<in> set fl'"
    from asc_middle [OF ascK]
    have before: "\<forall>y \<in> set pre. chunk_end y < unat (fst K)"
      and after: "\<forall>y \<in> set post. chunk_end K < unat (fst y)" by simp_all
    from x consider "x \<in> set pre" | "x \<in> set post" | "sp \<and> x = N"
      by (auto simp add: fl'_def split: if_splits)
    then show "bytes_of (fst K, eff) \<inter> bytes_of x = {}"
    proof cases
      case 1
      with before have "chunk_end x < unat (fst K)" by simp
      then show ?thesis by (auto simp add: bytes_of_def chunk_end_def)
    next
      case 2
      with after have "chunk_end K < unat (fst x)" by simp
      with effK show ?thesis by (auto simp add: bytes_of_def chunk_end_def)
    next
      case 3
      with tail(5) show ?thesis by (simp add: eff_def)
    qed
  qed
  \<comment> \<open>the old allocations\<close>
  have Unew: "\<forall>q \<in> set live. q \<noteq> U"
  proof
    fix q assume q: "q \<in> set live"
    with dlf Kin have "bytes_of (span h q) \<inter> bytes_of K = {}" by simp
    moreover from live q have q12: "0 < unat (snd (span h q))" by (auto simp add: span_def)
    moreover from big Kin have "0 < unat (snd K)" by auto
    ultimately have "chunk_end (span h q) \<le> unat (fst K) \<or> chunk_end K \<le> unat (fst (span h q))"
      by (rule bytes_of_ordered)
    then have "unat q \<noteq> unat U"
    proof
      assume "chunk_end (span h q) \<le> unat (fst K)"
      with live q UL show ?thesis by (auto simp add: span_def chunk_end_def)
    next
      assume "chunk_end K \<le> unat (fst (span h q))"
      with live q Ueff effK show ?thesis by (auto simp add: span_def chunk_end_def)
    qed
    then show "q \<noteq> U" by auto
  qed
  have old: "q \<in> set live \<Longrightarrow> m' (q - sizeof_alloc_struct_begin) = mem h (q - sizeof_alloc_struct_begin)" for q
    using Unew by (auto simp add: m'_def)
  have sb: "q \<in> set live \<Longrightarrow> span_base h' q = span_base h q"
    and ss: "q \<in> set live \<Longrightarrow> span_size h' q = span_size h q"
    and sq: "q \<in> set live \<Longrightarrow> span h' q = span h q" for q
    by (simp_all add: span_def span_base_def span_size_def h'_def old)
  have sbU: "span_base h' U = fst K" and ssU: "span_size h' U = eff"
    and sU: "span h' U = (fst K, eff)"
    by (simp_all add: span_def span_base_def span_size_def h'_def m'_def)
  have lb: "live_bytes h' live = live_bytes h live"
    unfolding live_bytes_def using ss by (intro arg_cong [where f = sum_list] map_cong) simp_all
  have bh: "base h' = base h" "len h' = len h" "free_list h' = fl'"
    by (simp_all add: h'_def)
  \<comment> \<open>the parts of the invariant\<close>
  have I1: "chunks_in_region h'"
    using E reg2 by (simp add: chunks_in_region_def bh E_def chunk_end_def)
  have I3: "\<forall>c \<in> set (free_list h'). unat sizeof_free_heap_chunk \<le> unat (snd c)"
    using reg2 by (simp add: bh sizeof_free_heap_chunk_def)
  have I4: "distinct (U # live)" using dist Unew by auto
  have I5: "\<forall>p \<in> set (U # live).
        unat (base h') \<le> unat (span_base h' p) \<and>
        unat (span_base h' p) + unat (span_size h' p) \<le> unat (base h') + unat (len h') \<and>
        unat (span_base h' p) + unat sizeof_alloc_struct_begin \<le> unat p \<and>
        unat p \<le> unat (span_base h' p) + unat (span_size h' p)"
  proof
    fix p assume "p \<in> set (U # live)"
    then consider "p = U" | "p \<in> set live" by auto
    then show "unat (base h') \<le> unat (span_base h' p) \<and>
        unat (span_base h' p) + unat (span_size h' p) \<le> unat (base h') + unat (len h') \<and>
        unat (span_base h' p) + unat sizeof_alloc_struct_begin \<le> unat p \<and>
        unat p \<le> unat (span_base h' p) + unat (span_size h' p)"
    proof cases
      case 1
      with Kb KE effK UL Ueff show ?thesis
        by (simp add: sbU ssU bh E_def chunk_end_def sizeof_alloc_struct_begin_def)
    next
      case 2
      with live show ?thesis
        by (simp add: sb ss bh E_def sizeof_alloc_struct_begin_def)
    qed
  qed
  have I6: "\<forall>p \<in> set (U # live). \<forall>c \<in> set (free_list h'). bytes_of (span h' p) \<inter> bytes_of c = {}"
  proof (intro ballI)
    fix p c assume p: "p \<in> set (U # live)" and c: "c \<in> set (free_list h')"
    from c have c': "c \<in> set fl'" by (simp add: bh)
    from p consider "p = U" | "p \<in> set live" by auto
    then show "bytes_of (span h' p) \<inter> bytes_of c = {}"
    proof cases
      case 1
      with span_fl' c' show ?thesis by (simp add: sU)
    next
      case 2
      from bytes_sub c' obtain y where y: "y \<in> set (free_list h)" "bytes_of c \<subseteq> bytes_of y"
        by blast
      from dlf 2 y(1) have "bytes_of (span h p) \<inter> bytes_of y = {}" by simp
      with y(2) 2 show ?thesis by (auto simp add: sq)
    qed
  qed
  have I7: "\<forall>p \<in> set (U # live). \<forall>q \<in> set (U # live).
        p \<noteq> q \<longrightarrow> bytes_of (span h' p) \<inter> bytes_of (span h' q) = {}"
  proof (intro ballI impI)
    fix p q assume p: "p \<in> set (U # live)" and q: "q \<in> set (U # live)" and pq: "p \<noteq> q"
    have newold: "bytes_of (span h' U) \<inter> bytes_of (span h' r) = {}" if "r \<in> set live" for r
    proof -
      from dlf that Kin have "bytes_of (span h r) \<inter> bytes_of K = {}" by simp
      with spanK that show ?thesis by (auto simp add: sU sq)
    qed
    from p q pq consider "p = U \<and> q \<in> set live" | "q = U \<and> p \<in> set live"
      | "p \<in> set live \<and> q \<in> set live" by auto
    then show "bytes_of (span h' p) \<inter> bytes_of (span h' q) = {}"
    proof cases
      case 1
      with newold show ?thesis by simp
    next
      case 2
      with newold [of p] show ?thesis by auto
    next
      case 3
      with dll pq show ?thesis by (simp add: sq)
    qed
  qed
  have I8: "free_bytes h' + live_bytes h' (U # live) = unat (len h')"
  proof -
    have "len_sum (free_list h) = len_sum pre + unat (snd K) + len_sum post"
      by (simp add: fl len_sum_def)
    moreover have "len_sum fl' + unat eff = len_sum pre + unat (snd K) + len_sum post"
      using tail(2) sle by (simp add: fl'_def eff_def len_sum_def N_def)
    moreover have "live_bytes h' (U # live) = unat eff + live_bytes h live"
      using lb by (simp add: live_bytes_def ssU)
    ultimately show ?thesis
      using sum by (simp add: free_bytes_len_sum bh)
  qed
  have "heap_inv h' (U # live)"
    unfolding heap_inv_def using I1 asc' I3 I4 I5 I6 I7 I8
    by (simp only: bh)
  then show ?thesis by (simp add: res)
qed

lemma heap_step_inv:
  assumes "heap_inv h live" and "op_in_range x"
    and "heap_step (h, live) x = Some (h', live')"
  shows "heap_inv h' live'"
proof (cases x)
  case (Alloc n a)
  with assms(2) have rng: "request_in_range n a" by simp
  from assms(3) Alloc have h': "h' = fst (heap_alloc h n a)"
    and l': "live' = (if snd (heap_alloc h n a) = 0 then live else snd (heap_alloc h n a) # live)"
    by (auto split: prod.splits)
  from assms(1) have cir: "chunks_in_region h" by (simp add: heap_inv_def)
  show ?thesis
  proof (cases "snd (heap_alloc h n a) = 0")
    case True
    from heap_alloc_null_unchanged [OF cir rng True] True assms(1) show ?thesis
      by (simp add: h' l')
  next
    case False
    then have a: "a AND (a - 1) = 0"
      using heap_alloc_bad_alignment [of a h n] by (cases "a AND (a - 1) = 0") simp_all
    from False a obtain K post
      where d: "dropWhile (\<lambda>chunk. \<not> alloc_size n a \<le> snd chunk) (free_list h) = K # post"
      using heap_alloc_no_fit [OF a, of n h]
      by (cases "dropWhile (\<lambda>chunk. \<not> alloc_size n a \<le> snd chunk) (free_list h)") auto
    from heap_alloc_fit_inv [OF assms(1) rng a d] False show ?thesis
      by (simp add: h' l')
  qed
next
  case (Free p)
  show ?thesis
  proof (cases "p = 0")
    case True
    with assms(1,3) Free show ?thesis by simp
  next
    case False
    with assms(3) Free have p: "p \<in> set live" and h': "h' = heap_free h p"
      and l': "live' = remove1 p live"
      by (auto split: if_splits)
    from heap_free_inv [OF assms(1) p False] show ?thesis by (simp add: h' l')
  qed
qed

lemma heap_run_inv:
  assumes "heap_inv h live" and "list_all op_in_range xs"
    and "heap_run (h, live) xs = Some (h', live')"
  shows "heap_inv h' live'"
  using assms
proof (induction xs arbitrary: h live)
  case Nil
  then show ?case by simp
next
  case (Cons x xs)
  from Cons.prems(3) obtain h1 live1 where s: "heap_step (h, live) x = Some (h1, live1)"
    and r: "heap_run (h1, live1) xs = Some (h', live')"
    by (auto split: option.splits)
  from Cons.prems(2) have x: "op_in_range x" and xs: "list_all op_in_range xs" by simp_all
  from heap_step_inv [OF Cons.prems(1) x s] have "heap_inv h1 live1" .
  from Cons.IH [OF this xs r] show ?case .
qed

lemma heap_init_free_list:
  "free_list (heap_init e r m) = [(e, r - e)]"
  by (simp add: heap_init_def heap_insert_free_chunk_def merge_last_chunk_def
      merge_next_chunk_def heap_create_free_chunk_def Let_def)

text \<open>
  \<open>heap_init\<close> establishes the invariant, when the end of the memory is not below the
  end of the binary and the region has room for the header of a free chunk.
\<close>

lemma heap_init_inv:
  assumes "e \<le> r" and "unat sizeof_free_heap_chunk \<le> unat (r - e)"
  shows "heap_inv (heap_init e r m) []"
proof -
  from assms(1) have "unat (r - e) = unat r - unat e" by (simp add: unat_sub)
  moreover from assms(1) have "unat e \<le> unat r" by (simp add: word_le_nat_alt)
  moreover have "unat r < 2 ^ 32" using unsigned_less [of r] by simp
  ultimately have "unat e + unat (r - e) < 2 ^ 32" by simp
  moreover have "base (heap_init e r m) = e" "len (heap_init e r m) = r - e"
    by (simp_all add: heap_init_def Let_def)
  ultimately show ?thesis
    using assms(2)
    by (simp add: heap_inv_def chunks_in_region_def heap_init_free_list free_bytes_def
        live_bytes_def)
qed

lemma heap_alloc_region:
  "base (fst (heap_alloc h n a)) = base h \<and> len (fst (heap_alloc h n a)) = len h"
  by (simp add: heap_alloc_def Let_def split: list.split prod.split)

lemma heap_step_region:
  assumes "heap_step (h, live) x = Some (h', live')"
  shows "base h' = base h \<and> len h' = len h"
proof (cases x)
  case (Alloc n a)
  with assms have "h' = fst (heap_alloc h n a)" by (auto split: prod.splits)
  then show ?thesis by (simp add: heap_alloc_region)
next
  case (Free p)
  with assms have "h' = h \<or> h' = heap_free h p" by (auto split: if_splits)
  then show ?thesis by (auto simp add: heap_free_def Let_def)
qed

lemma heap_run_region:
  assumes "heap_run (h, live) xs = Some (h', live')"
  shows "base h' = base h \<and> len h' = len h"
  using assms
proof (induction xs arbitrary: h live)
  case Nil
  then show ?case by simp
next
  case (Cons x xs)
  from Cons.prems obtain h1 live1 where s: "heap_step (h, live) x = Some (h1, live1)"
    and r: "heap_run (h1, live1) xs = Some (h', live')"
    by (auto split: option.splits)
  from Cons.IH [OF r] heap_step_region [OF s] show ?case by simp
qed

text \<open>
  With all requests in range: after every run of \<open>heap_alloc\<close> and \<open>heap_free\<close>
  from an initialised heap, the free list ascends without touching chunks, and the
  free lengths and the recorded span sizes of the live allocations add up to the length
  of the region.
\<close>

lemma heap_run_from_init:
  assumes "e \<le> r" and "unat sizeof_free_heap_chunk \<le> unat (r - e)"
    and "list_all op_in_range xs"
    and "heap_run (heap_init e r m, []) xs = Some (h, live)"
  shows "ascending_nonadjacent (free_list h) \<and>
         free_bytes h + live_bytes h live = unat (r - e)"
proof -
  from heap_run_inv [OF heap_init_inv [OF assms(1,2)] assms(3,4)]
  have "heap_inv h live" .
  moreover from heap_run_region [OF assms(4)] have "len h = r - e"
    by (simp add: heap_init_def Let_def)
  ultimately show ?thesis by (simp add: heap_inv_def)
qed

text \<open>
  For a request in range: in a heap whose free list is the whole region, freeing
  the pointer that \<open>heap_alloc\<close> returned gives the whole region back.
\<close>

lemma alloc_free_round_trip:
  assumes fl: "free_list h = [(base h, len h)]"
    and reg: "unat (base h) + unat (len h) < 2 ^ 32"
    and rng: "request_in_range n a"
    and p: "snd (heap_alloc h n a) \<noteq> 0"
  shows "free_list (heap_free (fst (heap_alloc h n a)) (snd (heap_alloc h n a)))
           = [(base h, len h)]"
proof -
  define s where "s = alloc_size n a"
  define K where "K = (base h, len h)"
  from p have a: "a AND (a - 1) = 0"
    using heap_alloc_bad_alignment [of a h n] by (cases "a AND (a - 1) = 0") simp_all
  from p a obtain K' post
    where d': "dropWhile (\<lambda>chunk. \<not> alloc_size n a \<le> snd chunk) (free_list h) = K' # post"
    using heap_alloc_no_fit [OF a, of n h]
    by (cases "dropWhile (\<lambda>chunk. \<not> alloc_size n a \<le> snd chunk) (free_list h)") auto
  then have fit: "s \<le> len h" and d: "dropWhile (\<lambda>chunk. \<not> alloc_size n a \<le> snd chunk) (free_list h) = [K]"
    and t: "takeWhile (\<lambda>chunk. \<not> alloc_size n a \<le> snd chunk) (free_list h) = []"
    by (auto simp add: fl s_def K_def split: if_splits)
  from fit have sle: "unat s \<le> unat (snd K)" by (simp add: word_le_nat_alt K_def)
  from reg have K32: "chunk_end K < 2 ^ 32" by (simp add: chunk_end_def K_def)
  note tail = chunk_tail [OF sle K32]
  from alloc_size_ge [OF rng] have s12: "12 \<le> unat s" by (simp add: s_def)
  define U where "U = user_ptr (fst K) a"
  have res: "heap_alloc h n a =
    (h\<lparr>free_list := (if s + sizeof_free_heap_chunk < snd K then [(fst K + s, snd K - s)] else []),
        mem := (mem h)(U - sizeof_alloc_struct_begin :=
             \<lparr>as_magic = HEAP_MAGIC, as_ptr = fst K,
              as_size = (if s + sizeof_free_heap_chunk < snd K then s else snd K)\<rparr>)\<rparr>, U)"
    using heap_alloc_fit [OF a d] by (simp add: t s_def U_def)
  from p have U0: "U \<noteq> 0" by (simp add: res)
  show ?thesis
  proof (cases "s + sizeof_free_heap_chunk < snd K")
    case False
    with U0 show ?thesis
      by (simp add: res heap_free_def Let_def heap_insert_free_chunk_def merge_last_chunk_def
          merge_next_chunk_def heap_create_free_chunk_def K_def)
  next
    case True
    from tail(1) s12 have lt: "fst K < fst K + s" by (simp add: word_less_nat_alt)
    from sle have "s + (snd K - s) = snd K" by simp
    with True U0 lt show ?thesis
      by (simp add: res heap_free_def Let_def heap_insert_free_chunk_def merge_last_chunk_def
          merge_next_chunk_def heap_create_free_chunk_def K_def)
  qed
qed

section \<open>Normalisation, first fit and the split for requests in range\<close>

lemma unat_sizes:
  "unat sizeof_alloc_struct_begin = 12" "unat sizeof_free_heap_chunk = 12" "unat sizeof_ptr = 4"
  by (simp_all add: sizeof_alloc_struct_begin_def sizeof_free_heap_chunk_def sizeof_ptr_def)

lemma unat_alloc_alignment: "unat (alloc_alignment a) = (if a \<noteq> 0 then max (unat a) 16 else 0)"
  by (auto simp add: alloc_alignment_def word_gt_0 word_less_nat_alt max_def unsigned_eq_0_iff)

text \<open>
  For a request in range the size that \<open>heap_alloc\<close> computes in \<open>size_t\<close> is the
  normalised size of the specification.
\<close>

lemma alloc_size_normalized:
  assumes "request_in_range n a"
  shows "unat (alloc_size n a) = normalized_size_spec (unat n) (unat a)"
proof -
  have "max (unat n + 12) 12 = unat n + 12" by simp
  moreover have "unat n + 12 + (4 - 1) = unat n + 15" by simp
  ultimately show ?thesis
    by (simp add: unat_alloc_size [OF assms] unat_alloc_alignment normalized_size_spec_def
        unat_sizes unsigned_eq_0_iff Let_def add.commute)
qed

lemma find_fit_nat:
  "find (\<lambda>K. unat s \<le> unat (snd K)) fl = find (\<lambda>K. s \<le> snd K) fl"
  by (simp add: word_le_nat_alt)

text \<open>
  For a request in range \<open>heap_alloc\<close> takes the first chunk of the free list whose
  \<open>len\<close> is at least the normalised size, and returns \<open>NULL\<close> and leaves the heap as it
  is when there is none.
\<close>

lemma heap_alloc_first_fit_in_range:
  assumes "request_in_range n a" and "a AND (a - 1) = 0"
  shows "case find (\<lambda>K. normalized_size_spec (unat n) (unat a) \<le> unat (snd K)) (free_list h) of
           None \<Rightarrow> heap_alloc h n a = (h, 0)
         | Some K \<Rightarrow> span_base (fst (heap_alloc h n a)) (snd (heap_alloc h n a)) = fst K"
proof (cases "dropWhile (\<lambda>chunk. \<not> alloc_size n a \<le> snd chunk) (free_list h)")
  case Nil
  with assms(2) show ?thesis
    by (simp add: alloc_size_normalized [OF assms(1), symmetric] find_fit_nat find_dropWhile_not
        heap_alloc_no_fit del: dropWhile_eq_Nil_conv)
next
  case (Cons K post)
  with assms(2) show ?thesis
    by (simp add: alloc_size_normalized [OF assms(1), symmetric] find_fit_nat find_dropWhile_not
        heap_alloc_fit span_base_def)
qed

lemma heap_alloc_first_fit_in_range_example:
  "request_in_range 100 64 \<and> (64 :: 32 word) AND (64 - 1) = 0 \<and>
   normalized_size_spec 100 64 = 176 \<and>
   find (\<lambda>K. normalized_size_spec 100 64 \<le> unat (snd K))
     (free_list (heap_init 0x90000000 0x90001000 no_headers)) = Some (0x90000000, 0x1000) \<and>
   span_base (fst (heap_alloc (heap_init 0x90000000 0x90001000 no_headers) 100 64))
     (snd (heap_alloc (heap_init 0x90000000 0x90001000 no_headers) 100 64)) = 0x90000000"
proof -
  have r: "request_in_range 100 64"
    by (simp add: request_in_range_def unat_sizes unat_alloc_alignment)
  have a: "(64 :: 32 word) AND (64 - 1) = 0" by simp
  have n: "normalized_size_spec 100 64 = 176"
    by (simp add: normalized_size_spec_def unat_sizes)
  have f: "free_list (heap_init 0x90000000 0x90001000 no_headers) = [(0x90000000, 0x1000)]"
    by (simp add: heap_eval)
  from heap_alloc_first_fit_in_range [OF r a, of "heap_init 0x90000000 0x90001000 no_headers"]
  show ?thesis
    by (simp add: r n f)
qed

text \<open>
  For a request in range that takes the chunk \<open>K\<close>: if \<open>K.len\<close> exceeds the normalised
  size by more than a free chunk header, the rest of \<open>K\<close> takes the place of \<open>K\<close> in the
  free list and the span has the normalised size; otherwise \<open>K\<close> leaves the list and the
  span has the length of \<open>K\<close>.
\<close>

lemma heap_alloc_split_in_range:
  assumes "request_in_range n a" and "a AND (a - 1) = 0"
    and "free_list h = pre @ K # post"
    and "\<forall>c \<in> set pre. unat (snd c) < normalized_size_spec (unat n) (unat a)"
    and "normalized_size_spec (unat n) (unat a) \<le> unat (snd K)"
  shows "free_list (fst (heap_alloc h n a)) =
           (if normalized_size_spec (unat n) (unat a) + unat sizeof_free_heap_chunk < unat (snd K)
            then pre @ (fst K + alloc_size n a, snd K - alloc_size n a) # post
            else pre @ post) \<and>
         span_base (fst (heap_alloc h n a)) (snd (heap_alloc h n a)) = fst K \<and>
         unat (span_size (fst (heap_alloc h n a)) (snd (heap_alloc h n a))) =
           (if normalized_size_spec (unat n) (unat a) + unat sizeof_free_heap_chunk < unat (snd K)
            then normalized_size_spec (unat n) (unat a) else unat (snd K))"
proof -
  note sz = alloc_size_normalized [OF assms(1), symmetric]
  from assms(4) have small: "\<forall>c \<in> set pre. \<not> alloc_size n a \<le> snd c"
    by (simp add: sz word_le_nat_alt not_le)
  from assms(5) have fit: "alloc_size n a \<le> snd K"
    by (simp add: sz word_le_nat_alt)
  from small assms(3) fit
  have t: "takeWhile (\<lambda>chunk. \<not> alloc_size n a \<le> snd chunk) (free_list h) = pre"
    by (simp add: takeWhile_append2)
  from small assms(3) fit
  have d: "dropWhile (\<lambda>chunk. \<not> alloc_size n a \<le> snd chunk) (free_list h) = K # post"
    by (simp add: dropWhile_append2)
  have sp: "alloc_size n a + sizeof_free_heap_chunk < snd K \<longleftrightarrow>
      normalized_size_spec (unat n) (unat a) + unat sizeof_free_heap_chunk < unat (snd K)"
    by (simp add: split_test [OF assms(1)] sz unat_sizes)
  show ?thesis
    by (simp add: heap_alloc_fit [OF assms(2) d] t span_base_def span_size_def sp)
      (simp add: sz)
qed

lemma heap_alloc_split_in_range_example:
  "request_in_range 8 0 \<and>
   normalized_size_spec 8 0 = 20 \<and>
   free_list (fst (heap_alloc \<lparr>base = 0x1000, len = 0x2000,
       free_list = [(0x1000, 16), (0x2000, 0x1000)], mem = no_headers\<rparr> 8 0))
     = [(0x1000, 16), (0x2014, 0xFEC)] \<and>
   unat (span_size (fst (heap_alloc \<lparr>base = 0x1000, len = 0x2000,
       free_list = [(0x1000, 16), (0x2000, 0x1000)], mem = no_headers\<rparr> 8 0))
     (snd (heap_alloc \<lparr>base = 0x1000, len = 0x2000,
       free_list = [(0x1000, 16), (0x2000, 0x1000)], mem = no_headers\<rparr> 8 0))) = 20"
proof -
  have r: "request_in_range 8 0"
    by (simp add: request_in_range_def unat_sizes unat_alloc_alignment)
  have n: "normalized_size_spec 8 0 = 20"
    by (simp add: normalized_size_spec_def unat_sizes)
  have s: "alloc_size 8 0 = 20" by (simp add: heap_eval)
  from heap_alloc_split_in_range [OF r, of "\<lparr>base = 0x1000, len = 0x2000,
       free_list = [(0x1000, 16), (0x2000, 0x1000)], mem = no_headers\<rparr>"
       "[(0x1000, 16)]" "(0x2000, 0x1000)" "[]"]
  show ?thesis by (simp add: r n s unat_sizes)
qed

section \<open>Requests whose normalised size wraps around\<close>

text \<open>
  \<open>heap_alloc\<close> adds the header size, the rounding and the alignment to the request in
  \<open>size_t\<close>, and nothing checks that the sum still fits in 32 bits. The evaluations
  below are runs of the code on requests for which it does not.
\<close>

text \<open>
  C1. After every sequence of completed \<open>heap_alloc\<close> and \<open>heap_free\<close> calls on an
  initialised heap, the free list is in strictly ascending address order and the end of
  each chunk is strictly below the next chunk. The code breaks this in a run of six
  calls on the region \<open>[0x7FFF0000, 0x80010000)\<close>: the two calls
  \<open>heap_alloc(0x80000000, 0x80000000)\<close> look for 12 bytes each and both return
  \<open>0x80000000\<close>, so that both store their header at \<open>0x7FFFFFF4\<close>, and the second
  header stays. Freeing the two allocations inserts the span of the second one twice,
  and the free list ends with a chunk inside the chunk before it.
\<close>

theorem free_list_overlap_after_run:
  "(case heap_run (heap_init 0x7FFF0000 0x80010000 no_headers, [])
          [Alloc 0x80000000 0x80000000, Alloc 0 0, Alloc 0x80000000 0x80000000,
           Free 0x7FFF0018, Free 0x80000000, Free 0x80000000] of
      None \<Rightarrow> False
    | Some (h, live) \<Rightarrow>
        live = [] \<and> free_list h = [(0x7FFF000C, 0x1FFF4), (0x7FFF0018, 12)] \<and>
        \<not> ascending_nonadjacent (free_list h))"
  by (simp add: heap_eval)

text \<open>
  C2. After every sequence of completed \<open>heap_alloc\<close> and \<open>heap_free\<close> calls on an
  initialised heap of length \<open>len\<close>, the \<open>len\<close> fields of the free chunks and the
  \<open>as->size\<close> fields of the live allocations add up to \<open>len\<close>. The code breaks this
  in two calls on the region \<open>[0x7FFF0000, 0x80010000)\<close>:
  \<open>heap_alloc(0x80000000, 0x80000000)\<close> carves 12 bytes and
  \<open>heap_alloc(0x80000004, 0x80000000)\<close> carves 16, both return \<open>0x80000000\<close> and the
  header found there records 16 bytes, so that the sum is 131076 in a region of 131072
  bytes.
\<close>

theorem span_sizes_exceed_region:
  "(case heap_run (heap_init 0x7FFF0000 0x80010000 no_headers, [])
          [Alloc 0x80000000 0x80000000, Alloc 0x80000004 0x80000000] of
      None \<Rightarrow> False
    | Some (h, live) \<Rightarrow>
        live = [0x80000000, 0x80000000] \<and> free_list h = [(0x7FFF001C, 0x1FFE4)] \<and>
        free_bytes h + live_bytes h live = 131076 \<and> unat (len h) = 131072)"
  by (simp add: heap_eval free_bytes_def live_bytes_def)

text \<open>
  C5. \<open>heap_alloc\<close> normalises the request: it adds the size of the allocation header,
  raises the result to at least the size of a free chunk header, rounds it up to a
  multiple of the pointer size, and for a nonzero alignment adds the alignment raised to
  at least 16; it then takes the first chunk of the free list whose \<open>len\<close> is at least
  this normalised size. The code breaks this at \<open>heap_alloc(0xFFFFFFF8, 0)\<close> on the
  fresh heap over \<open>[0x90000000, 0x90001000)\<close>: the normalised size is 4294967300, the
  sum made in \<open>size_t\<close> is 12, no chunk of the free list has 4294967300 bytes, and the
  call takes the chunk of 4096 bytes at \<open>0x90000000\<close> and returns \<open>0x9000000C\<close>.
\<close>

theorem heap_alloc_selects_too_small_chunk:
  "normalized_size_spec (unat (0xFFFFFFF8 :: size_t)) (unat (0 :: 32 word)) = 4294967300 \<and>
   alloc_size 0xFFFFFFF8 0 = 12 \<and>
   free_list (heap_init 0x90000000 0x90001000 no_headers) = [(0x90000000, 0x1000)] \<and>
   find (\<lambda>K. normalized_size_spec (unat (0xFFFFFFF8 :: size_t)) (unat (0 :: 32 word))
                  \<le> unat (snd K))
     (free_list (heap_init 0x90000000 0x90001000 no_headers)) = None \<and>
   snd (heap_alloc (heap_init 0x90000000 0x90001000 no_headers) 0xFFFFFFF8 0) = 0x9000000C \<and>
   span_base (fst (heap_alloc (heap_init 0x90000000 0x90001000 no_headers) 0xFFFFFFF8 0))
     0x9000000C = 0x90000000"
proof -
  have n: "normalized_size_spec (unat (0xFFFFFFF8 :: size_t)) (unat (0 :: 32 word)) = 4294967300"
    by (simp add: normalized_size_spec_def unat_sizes)
  show ?thesis
    unfolding n by (simp add: heap_eval)
qed

text \<open>
  C7. \<open>heap_alloc\<close> returns \<open>NULL\<close> if and only if the alignment is nonzero and not a
  power of two, or no chunk of the free list has the normalised size. The code breaks
  this at \<open>heap_alloc(0x80000000, 0x80000000)\<close> on the region
  \<open>[0x90000000, 0x90001000)\<close>: the alignment is a power of two, the normalised size is
  12 and the chunk of the free list has 4096 bytes, yet the call returns \<open>NULL\<close>, for
  the pointer rounded up to the alignment wraps around to 0. And at
  \<open>heap_alloc(0xFFFFFFF8, 0)\<close> the call returns a pointer although the request with its
  header is larger than the chunk.
\<close>

theorem heap_alloc_null_with_fitting_chunk:
  "(0x80000000 :: 32 word) AND (0x80000000 - 1) = 0 \<and>
   alloc_size 0x80000000 0x80000000 = 12 \<and>
   free_list (heap_init 0x90000000 0x90001000 no_headers) = [(0x90000000, 0x1000)] \<and>
   snd (heap_alloc (heap_init 0x90000000 0x90001000 no_headers) 0x80000000 0x80000000) = 0 \<and>
   snd (heap_alloc (heap_init 0x90000000 0x90001000 no_headers) 0xFFFFFFF8 0) = 0x9000000C \<and>
   unat (0x1000 :: size_t) < unat (0xFFFFFFF8 :: size_t) + unat sizeof_alloc_struct_begin"
  by (simp add: heap_eval)

text \<open>
  C8. For every successful \<open>heap_alloc\<close> of \<open>n\<close> bytes, with the span \<open>S\<close> of length
  \<open>eff_size\<close> and the returned pointer \<open>U\<close>:
  \<open>S + sizeof(struct alloc_struct_begin) \<le> U\<close> and \<open>U + n \<le> S + eff_size\<close>. The code
  breaks the second part at \<open>heap_alloc(0xFFFFFFF8, 0)\<close> on a fresh heap: the call
  returns \<open>0x9000000C\<close> for a recorded span of 12 bytes at \<open>0x90000000\<close>, which ends far
  below the end of the user region.
\<close>

theorem heap_alloc_huge_size_overrun:
  "snd (heap_alloc (heap_init 0x90000000 0x90001000 no_headers) 0xFFFFFFF8 0) = 0x9000000C \<and>
   span_base (fst (heap_alloc (heap_init 0x90000000 0x90001000 no_headers) 0xFFFFFFF8 0))
     0x9000000C = 0x90000000 \<and>
   span_size (fst (heap_alloc (heap_init 0x90000000 0x90001000 no_headers) 0xFFFFFFF8 0))
     0x9000000C = 12 \<and>
   unat (0x90000000 :: addr) + unat (12 :: size_t)
     < unat (0x9000000C :: addr) + unat (0xFFFFFFF8 :: size_t)"
  by (simp add: heap_eval)

text \<open>
  C10. Whenever \<open>heap_alloc\<close> returns \<open>NULL\<close>, the heap is as it was before the call.
  The code breaks this at \<open>heap_alloc(0x80000000, 0x80000000)\<close> on the region
  \<open>[0x90000000, 0x90001000)\<close>: the call returns \<open>NULL\<close>, because the pointer rounded
  up to the alignment wraps around to 0, after it has taken 12 bytes from the free list
  and stored a header at \<open>0xFFFFFFF4\<close>.
\<close>

theorem heap_alloc_null_changes_heap:
  "snd (heap_alloc (heap_init 0x90000000 0x90001000 no_headers) 0x80000000 0x80000000) = 0 \<and>
   free_list (heap_init 0x90000000 0x90001000 no_headers) = [(0x90000000, 0x1000)] \<and>
   free_list (fst (heap_alloc (heap_init 0x90000000 0x90001000 no_headers) 0x80000000 0x80000000))
     = [(0x9000000C, 0xFF4)] \<and>
   mem (fst (heap_alloc (heap_init 0x90000000 0x90001000 no_headers) 0x80000000 0x80000000))
     0xFFFFFFF4 = \<lparr>as_magic = HEAP_MAGIC, as_ptr = 0x90000000, as_size = 12\<rparr>"
  by (simp add: heap_eval)

section \<open>The memory after a request whose size wraps to zero\<close>

text \<open>
  The runs below are on the memory, with \<open>theheap\<close> at \<open>0x8FFFFFF0\<close> and the region
  \<open>[0x90000000, 0x90001000)\<close> behind it. \<open>heap_init\<close> leaves one chunk of 4096 bytes at
  \<open>0x90000000\<close>, linked to the head of the list at \<open>0x8FFFFFF8\<close>.
\<close>

lemma init_ram:
  "heap_init_ram (Suc 0) 0x8FFFFFF0 0x90000000 0x90001000 blank_ram =
     Some (blank_ram(0x8FFFFFF0 := 0x90000000, 0x8FFFFFF4 := 0x1000,
                     0x8FFFFFF8 := 0x90000000, 0x8FFFFFFC := 0x90000000,
                     0x90000000 := 0x8FFFFFF8, 0x90000004 := 0x8FFFFFF8, 0x90000008 := 0x1000))"
  by (simp add: ram_eval) (auto simp add: fun_eq_iff)

text \<open>
  At \<open>heap_alloc(0xFFFFFFF8, 0)\<close>, where the size wraps to 12, the memory holds what the
  heap of the sections above holds: the same free list, the same pointer and the same
  allocation header.
\<close>

lemma ram_agrees_at_huge_size:
  "(case heap_init_ram (Suc 0) 0x8FFFFFF0 0x90000000 0x90001000 blank_ram of
      None \<Rightarrow> False
    | Some m0 \<Rightarrow>
        ram_free_list (Suc (Suc 0)) 0x8FFFFFF8 m0 (m0 0x8FFFFFFC)
          = Some (free_list (heap_init 0x90000000 0x90001000 no_headers)) \<and>
        (case heap_alloc_ram (Suc 0) 0x8FFFFFF0 0xFFFFFFF8 0 m0 of
           None \<Rightarrow> False
         | Some (m1, p) \<Rightarrow>
             p = snd (heap_alloc (heap_init 0x90000000 0x90001000 no_headers) 0xFFFFFFF8 0) \<and>
             ram_free_list (Suc (Suc 0)) 0x8FFFFFF8 m1 (m1 0x8FFFFFFC)
               = Some (free_list (fst (heap_alloc (heap_init 0x90000000 0x90001000 no_headers)
                                         0xFFFFFFF8 0))) \<and>
             m1 (p - 8) = span_base (fst (heap_alloc (heap_init 0x90000000 0x90001000 no_headers)
                                         0xFFFFFFF8 0)) p \<and>
             m1 (p - 4) = span_size (fst (heap_alloc (heap_init 0x90000000 0x90001000 no_headers)
                                         0xFFFFFFF8 0)) p))"
proof -
  have s: "alloc_size 0xFFFFFFF8 0 = 12"
    by (simp add: alloc_size_def ROUNDUP_def sizeof_free_heap_chunk_def
        sizeof_alloc_struct_begin_def sizeof_ptr_def)
  have l: "heap_alloc (heap_init 0x90000000 0x90001000 no_headers) 0xFFFFFFF8 0 =
      (\<lparr> base = 0x90000000, len = 0x1000, free_list = [(0x9000000C, 0xFF4)],
         mem = no_headers(0x90000000 := \<lparr> as_magic = HEAP_MAGIC, as_ptr = 0x90000000, as_size = 12 \<rparr>) \<rparr>,
       0x9000000C)"
    by (simp add: heap_eval)
  have i: "free_list (heap_init 0x90000000 0x90001000 no_headers) = [(0x90000000, 0x1000)]"
    by (simp add: heap_eval)
  have r: "heap_alloc_ram (Suc 0) 0x8FFFFFF0 0xFFFFFFF8 0
     (blank_ram(0x8FFFFFF0 := 0x90000000, 0x8FFFFFF4 := 0x1000,
                0x8FFFFFF8 := 0x90000000, 0x8FFFFFFC := 0x90000000,
                0x90000000 := 0x8FFFFFF8, 0x90000004 := 0x8FFFFFF8, 0x90000008 := 0x1000)) =
     Some (blank_ram(0x8FFFFFF0 := 0x90000000, 0x8FFFFFF4 := 0x1000,
                0x8FFFFFF8 := 0x9000000C, 0x8FFFFFFC := 0x9000000C,
                0x90000000 := HEAP_MAGIC, 0x90000004 := 0x90000000, 0x90000008 := 12,
                0x9000000C := 0x8FFFFFF8, 0x90000010 := 0x8FFFFFF8, 0x90000014 := 0xFF4), 0x9000000C)"
    by (simp add: ram_eval s) (auto simp add: fun_eq_iff)
  show ?thesis
    by (simp add: init_ram r l i span_base_def span_size_def sizeof_alloc_struct_begin_def)
qed

text \<open>
  At \<open>heap_alloc(0xFFFFFFF1, 0)\<close> the size wraps to 0. The chunk at \<open>0x90000000\<close> is
  unlinked; as its \<open>len\<close> exceeds \<open>0 + 12\<close>, \<open>heap_create_free_chunk\<close> makes the new chunk
  at \<open>0x90000000 + 0\<close>, which is the chunk itself; the truncation sets its \<open>len\<close> to 0;
  \<open>list_add_tail\<close> links it again; and the allocation header, written at
  \<open>0x9000000C - 12\<close>, puts the magic word on its \<open>prev\<close> link, its own address on its
  \<open>next\<close> link and the size 0 on its \<open>len\<close>.
\<close>

lemma alloc_size_wrapped_zero: "alloc_size 0xFFFFFFF1 0 = 0"
  by (simp add: alloc_size_def ROUNDUP_def sizeof_free_heap_chunk_def
      sizeof_alloc_struct_begin_def sizeof_ptr_def)

lemma alloc_ram_wrapped:
  "heap_alloc_ram (Suc 0) 0x8FFFFFF0 0xFFFFFFF1 0
     (blank_ram(0x8FFFFFF0 := 0x90000000, 0x8FFFFFF4 := 0x1000,
                0x8FFFFFF8 := 0x90000000, 0x8FFFFFFC := 0x90000000,
                0x90000000 := 0x8FFFFFF8, 0x90000004 := 0x8FFFFFF8, 0x90000008 := 0x1000)) =
   Some (blank_ram(0x8FFFFFF0 := 0x90000000, 0x8FFFFFF4 := 0x1000,
                0x8FFFFFF8 := 0x90000000, 0x8FFFFFFC := 0x90000000,
                0x90000000 := HEAP_MAGIC, 0x90000004 := 0x90000000, 0x90000008 := 0),
         0x9000000C)"
  by (simp add: ram_eval alloc_size_wrapped_zero) (auto simp add: fun_eq_iff)

text \<open>
  C6. When \<open>heap_alloc\<close> takes a chunk \<open>K\<close> with the normalised size \<open>size\<close>: if
  \<open>K.len > size + sizeof(free_heap_chunk)\<close>, a new free chunk of length \<open>K.len - size\<close>
  at \<open>addr(K) + size\<close> takes the place of \<open>K\<close> in the list and the span has the length
  \<open>size\<close>; otherwise the allocation consumes all of \<open>K\<close> and the span has the length
  \<open>K.len\<close>. The code breaks this at \<open>heap_alloc(0xFFFFFFF1, 0)\<close> on the fresh heap,
  where \<open>K\<close> is the chunk of 4096 bytes at \<open>0x90000000\<close>. The normalised size is
  4294967296, above \<open>K.len\<close>, and the sum made in \<open>size_t\<close> is 0. The call returns
  \<open>0x9000000C\<close>; after it the head of the list still links to \<open>K\<close>, the \<open>next\<close> link of
  \<open>K\<close> is \<open>K\<close> itself, and the word that is both the \<open>len\<close> of \<open>K\<close> and the length of
  the span is 0: there is no free chunk of length 4096 at \<open>0x90000000\<close>, \<open>K\<close> has not
  left the list, and the span has neither the length 4096 of \<open>K\<close> nor the normalised
  size.
\<close>

theorem heap_alloc_split_wrapped_size:
  "(case heap_init_ram (Suc 0) 0x8FFFFFF0 0x90000000 0x90001000 blank_ram of
      None \<Rightarrow> False
    | Some m0 \<Rightarrow>
        m0 0x8FFFFFFC = 0x90000000 \<and> m0 0x90000004 = 0x8FFFFFF8 \<and> m0 0x90000008 = 0x1000 \<and>
        normalized_size_spec (unat (0xFFFFFFF1 :: size_t)) (unat (0 :: 32 word)) = 4294967296 \<and>
        alloc_size 0xFFFFFFF1 0 = 0 \<and>
        (case heap_alloc_ram (Suc 0) 0x8FFFFFF0 0xFFFFFFF1 0 m0 of
           None \<Rightarrow> False
         | Some (m1, p) \<Rightarrow>
             p = 0x9000000C \<and> m1 0x8FFFFFFC = 0x90000000 \<and>
             m1 0x90000004 = 0x90000000 \<and> m1 0x90000008 = 0))"
proof -
  have "normalized_size_spec (unat (0xFFFFFFF1 :: size_t)) (unat (0 :: 32 word)) = 4294967296"
    by (simp add: normalized_size_spec_def unat_sizes)
  then show ?thesis
    by (simp add: init_ram alloc_ram_wrapped alloc_size_wrapped_zero)
qed

text \<open>
  In a list whose node \<open>next_chunk\<close> links to itself, the walk of
  \<open>heap_insert_free_chunk\<close> for a chunk that is not below \<open>next_chunk\<close> does not end.
\<close>

lemma insert_walk_self_linked:
  assumes "next_chunk \<noteq> list" and "\<not> chunk < next_chunk" and "m (next_chunk + 4) = next_chunk"
  shows "insert_walk fuel list chunk m next_chunk = None"
  using assms by (induction fuel) simp_all

text \<open>
  C3. In an initialised heap whose free list is one chunk spanning the region, for every
  size and alignment for which \<open>heap_alloc\<close> returns a pointer \<open>p\<close>, \<open>heap_free(p)\<close>
  restores the free list to that one chunk. The code breaks this at
  \<open>p = heap_alloc(0xFFFFFFF1, 0)\<close> on the fresh heap: the call returns \<open>0x9000000C\<close> and
  leaves the node at \<open>0x90000000\<close> linked to itself, and \<open>heap_free(p)\<close> makes a chunk at
  \<open>0x90000000\<close>, which is not below that node, so that the walk of
  \<open>heap_insert_free_chunk\<close> stays on the node: \<open>heap_free\<close> does not return, whatever
  the fuel.
\<close>

theorem heap_free_walk_never_ends:
  "(case heap_init_ram (Suc 0) 0x8FFFFFF0 0x90000000 0x90001000 blank_ram of
      None \<Rightarrow> False
    | Some m0 \<Rightarrow>
        m0 0x8FFFFFFC = 0x90000000 \<and> m0 0x90000004 = 0x8FFFFFF8 \<and> m0 0x90000008 = 0x1000 \<and>
        (case heap_alloc_ram (Suc 0) 0x8FFFFFF0 0xFFFFFFF1 0 m0 of
           None \<Rightarrow> False
         | Some (m1, p) \<Rightarrow>
             p = 0x9000000C \<and> (\<forall>fuel. heap_free_ram fuel 0x8FFFFFF0 p m1 = None)))"
proof -
  have "insert_walk fuel 0x8FFFFFF8 0x90000000
      (blank_ram(0x8FFFFFF0 := 0x90000000, 0x8FFFFFF4 := 0x1000,
                0x8FFFFFF8 := 0x90000000, 0x8FFFFFFC := 0x90000000,
                0x90000000 := HEAP_MAGIC, 0x90000004 := 0x90000000, 0x90000008 := 0))
      0x90000000 = None" for fuel
    by (rule insert_walk_self_linked) simp_all
  then have "heap_free_ram fuel 0x8FFFFFF0 0x9000000C
      (blank_ram(0x8FFFFFF0 := 0x90000000, 0x8FFFFFF4 := 0x1000,
                0x8FFFFFF8 := 0x90000000, 0x8FFFFFFC := 0x90000000,
                0x90000000 := HEAP_MAGIC, 0x90000004 := 0x90000000, 0x90000008 := 0)) = None"
    for fuel
    by (simp add: heap_free_ram_def heap_insert_free_chunk_ram_def heap_create_free_chunk_ram_def
        free_list_of_def sizeof_alloc_struct_begin_def Let_def)
  then show ?thesis
    by (simp add: init_ram alloc_ram_wrapped)
qed

end
